theory Spec2Isabelle
  imports Complex_Main "HOL-Library.Finite_Map"
begin

section \<open>Strings and character classes\<close>

text \<open>
  Python strings are modelled as HOL strings. A \<^typ>\<open>char\<close> stands for one code point
  below 256, so \<^const>\<open>length\<close> is Python's \<^verbatim>\<open>len\<close> on such strings.
  The character classes are the ones Python's \<^verbatim>\<open>re\<close> module and \<^verbatim>\<open>str.strip\<close>
  use on \<^verbatim>\<open>str\<close> values, restricted to this range:
  \<^verbatim>\<open>\s\<close> and \<^verbatim>\<open>strip()\<close> both use the Unicode white-space test, which below 256 holds
  for the code points 9 to 13, 28 to 32, 133 and 160;
  \<^verbatim>\<open>\d\<close> is a decimal digit, which below 256 is \<^verbatim>\<open>0\<close> to \<^verbatim>\<open>9\<close>.
\<close>

definition is_space :: "char \<Rightarrow> bool" where
  "is_space c =
     (let n = (of_char c :: nat)
      in (9 \<le> n \<and> n \<le> 13) \<or> (28 \<le> n \<and> n \<le> 32) \<or> n = 133 \<or> n = 160)"

definition is_lower :: "char \<Rightarrow> bool" where
  "is_lower c = (let n = (of_char c :: nat) in 97 \<le> n \<and> n \<le> 122)"

definition is_upper :: "char \<Rightarrow> bool" where
  "is_upper c = (let n = (of_char c :: nat) in 65 \<le> n \<and> n \<le> 90)"

definition is_letter :: "char \<Rightarrow> bool" where
  "is_letter c = (is_upper c \<or> is_lower c)"

definition is_digit :: "char \<Rightarrow> bool" where
  "is_digit c = (let n = (of_char c :: nat) in 48 \<le> n \<and> n \<le> 57)"

definition is_punct :: "char \<Rightarrow> bool" where
  "is_punct c = (c = CHR ''.'' \<or> c = CHR '','' \<or> c = CHR '';'' \<or> c = CHR '':'')"

text \<open>\<^verbatim>\<open>str.strip()\<close>: drop leading and trailing white space.\<close>

definition lstrip :: "string \<Rightarrow> string" where
  "lstrip s = dropWhile is_space s"

definition rstrip :: "string \<Rightarrow> string" where
  "rstrip s = rev (dropWhile is_space (rev s))"

definition strip :: "string \<Rightarrow> string" where
  "strip s = rstrip (lstrip s)"

section \<open>Text normalizer: \<^verbatim>\<open>clean_wikipedia_text\<close>\<close>

text \<open>
  \<^verbatim>\<open>re.sub(r"\[[^\]]*\]", "", text)\<close>. Scanning from the left, a match starts at an
  opening bracket that has a closing bracket somewhere after it, and extends to the
  first such closing bracket (the class \<^verbatim>\<open>[^\]]\<close> takes every other character, line
  breaks too). The match is deleted and scanning goes on behind it. An opening bracket
  with no closing bracket behind it is kept.
\<close>

function remove_citations :: "string \<Rightarrow> string" where
  "remove_citations [] = []"
| "remove_citations (c # cs) =
     (if c = CHR ''['' \<and> CHR '']'' \<in> set cs
      then remove_citations (tl (dropWhile (\<lambda>x. x \<noteq> CHR '']'') cs))
      else c # remove_citations cs)"
  by pat_completeness auto
termination
  by (relation "measure length")
     (auto simp: less_Suc_eq_le intro: order_trans [OF diff_le_self length_dropWhile_le])

text \<open>
  \<^verbatim>\<open>re.sub(r"([A])([B])", r"\1 \2", text)\<close> for two one-character classes: scanning from
  the left, a position where a character of the first class is directly followed by one
  of the second is a match; both are written back with a space between them, and
  scanning goes on behind the second character (matches do not overlap).
\<close>

fun sub_pair :: "(char \<Rightarrow> bool) \<Rightarrow> (char \<Rightarrow> bool) \<Rightarrow> string \<Rightarrow> string" where
  "sub_pair A B (a # b # cs) =
     (if A a \<and> B b then a # CHR '' '' # b # sub_pair A B cs
      else a # sub_pair A B (b # cs))"
| "sub_pair A B cs = cs"

text \<open>\<^verbatim>\<open>re.sub(r"\s+", " ", text)\<close>: every maximal run of white space becomes one space.\<close>

function collapse_ws :: "string \<Rightarrow> string" where
  "collapse_ws [] = []"
| "collapse_ws (c # cs) =
     (if is_space c then CHR '' '' # collapse_ws (dropWhile is_space cs)
      else c # collapse_ws cs)"
  by pat_completeness auto
termination
  by (relation "measure length")
     (auto simp: less_Suc_eq_le length_dropWhile_le)

definition clean_wikipedia_text :: "string \<Rightarrow> string" where
  "clean_wikipedia_text text0 =
     (let text1 = remove_citations text0;
          text2 = sub_pair is_lower is_upper text1;
          text3 = sub_pair is_punct is_letter text2;
          text4 = sub_pair is_letter is_digit text3;
          text5 = sub_pair is_digit is_letter text4;
          text6 = collapse_ws text5
      in strip text6)"

subsection \<open>Shapes of text that the normalizer's rules leave alone\<close>

text \<open>
  \<open>pair_free A B s\<close>: no character of class \<open>A\<close> is directly followed by one of class
  \<open>B\<close>. \<open>no_citation s\<close>: no opening bracket has a closing bracket behind it.
  \<open>single_spaced s\<close>: the only white space is the space character, never twice in a row.
\<close>

fun pair_free :: "(char \<Rightarrow> bool) \<Rightarrow> (char \<Rightarrow> bool) \<Rightarrow> string \<Rightarrow> bool" where
  "pair_free A B (a # b # cs) = (\<not> (A a \<and> B b) \<and> pair_free A B (b # cs))"
| "pair_free A B cs = True"

fun no_citation :: "string \<Rightarrow> bool" where
  "no_citation [] = True"
| "no_citation (c # cs) = (\<not> (c = CHR ''['' \<and> CHR '']'' \<in> set cs) \<and> no_citation cs)"

definition single_spaced :: "string \<Rightarrow> bool" where
  "single_spaced s =
     (list_all (\<lambda>c. is_space c \<longrightarrow> c = CHR '' '') s \<and> pair_free is_space is_space s)"

definition is_bracket :: "char \<Rightarrow> bool" where
  "is_bracket c = (c = CHR ''['' \<or> c = CHR '']'')"

section \<open>Transcript parser: \<^verbatim>\<open>parse_conversation\<close>\<close>

text \<open>\<^verbatim>\<open>str.split(sep)\<close> for a one-character separator: the pieces between separators, empty
  pieces kept; the result is never the empty list.\<close>

fun split_on :: "char \<Rightarrow> string \<Rightarrow> string list" where
  "split_on sep [] = [[]]"
| "split_on sep (c # cs) =
     (if c = sep then [] # split_on sep cs
      else (case split_on sep cs of [] \<Rightarrow> [[c]] | l # ls \<Rightarrow> (c # l) # ls))"

text \<open>
  Under \<^verbatim>\<open>re.IGNORECASE\<close> a letter of the pattern matches its upper-case and its
  lower-case form; below code point 256 the letters of \<^verbatim>\<open>Speaker\<close> have no other
  case variants.
\<close>

definition ascii_lower :: "char \<Rightarrow> char" where
  "ascii_lower c = (if is_upper c then char_of (of_char c + (32::nat)) else c)"

fun match_literal_ci :: "string \<Rightarrow> string \<Rightarrow> string option" where
  "match_literal_ci [] s = Some s"
| "match_literal_ci (p # ps) [] = None"
| "match_literal_ci (p # ps) (c # cs) =
     (if ascii_lower c = ascii_lower p then match_literal_ci ps cs else None)"

text \<open>
  The tail \<^verbatim>\<open>\s*(.+)\<close> of the pattern. \<^verbatim>\<open>.\<close> is any character but the line feed, and
  \<^verbatim>\<open>.+\<close> is greedy: \<open>dot_plus\<close> is the longest run of such characters, which must not be
  empty. \<^verbatim>\<open>\s*\<close> first takes all the white space there is and gives characters back one
  at a time while the rest does not match: \<open>ws_then_text j s\<close> tries \<open>j\<close> characters
  of white space, then \<open>j - 1\<close>, down to none.
\<close>

definition dot_plus :: "string \<Rightarrow> string option" where
  "dot_plus s = (case takeWhile (\<lambda>c. c \<noteq> CHR 0x0A) s of [] \<Rightarrow> None | t # ts \<Rightarrow> Some (t # ts))"

fun ws_then_text :: "nat \<Rightarrow> string \<Rightarrow> string option" where
  "ws_then_text 0 s = dot_plus s"
| "ws_then_text (Suc j) s =
     (case dot_plus (drop (Suc j) s) of Some t \<Rightarrow> Some t | None \<Rightarrow> ws_then_text j s)"

text \<open>
  \<^verbatim>\<open>re.match(r"(Speaker\s*[12]):\s*(.+)", line, re.IGNORECASE)\<close>, anchored at the start of
  the line. The result is \<^verbatim>\<open>match.groups()\<close>: the text matched by
  \<^verbatim>\<open>Speaker\s*[12]\<close> and the text matched by \<^verbatim>\<open>.+\<close>. The first \<^verbatim>\<open>\s*\<close> takes all the
  white space: giving a character back would put white space where a digit must stand.
\<close>

definition speaker_re :: "string \<Rightarrow> (string \<times> string) option" where
  "speaker_re line =
     (case match_literal_ci ''Speaker'' line of
        None \<Rightarrow> None
      | Some r1 \<Rightarrow>
          (case dropWhile is_space r1 of
             [] \<Rightarrow> None
           | d # r3 \<Rightarrow>
               if d = CHR ''1'' \<or> d = CHR ''2'' then
                 (case r3 of
                    [] \<Rightarrow> None
                  | c # r4 \<Rightarrow>
                      if c = CHR '':'' then
                        (case ws_then_text (length (takeWhile is_space r4)) r4 of
                           None \<Rightarrow> None
                         | Some text \<Rightarrow> Some (take (length line - length r3) line, text))
                      else None)
               else None))"

type_synonym turn = "string \<times> string"

fun parse_loop :: "string list \<Rightarrow> turn list \<Rightarrow> turn list" where
  "parse_loop [] turns = turns"
| "parse_loop (l # ls) turns =
     (let line = strip l
      in if line = [] then parse_loop ls turns
         else (case speaker_re line of
                 None \<Rightarrow> parse_loop ls turns
               | Some (speaker_raw, text) \<Rightarrow>
                   let speaker_id = (if CHR ''1'' \<in> set speaker_raw then ''speaker1'' else ''speaker2'');
                       cleaned_text = strip text
                   in parse_loop ls (turns @ [(speaker_id, cleaned_text)])))"

definition parse_conversation :: "string \<Rightarrow> turn list" where
  "parse_conversation script = parse_loop (split_on (CHR 0x0A) (strip script)) []"

text \<open>
  The parser's rule for one line, in the words of the specification: the line, trimmed,
  starts with \<^verbatim>\<open>Speaker\<close> in any letter case; after optional white space comes
  \<^verbatim>\<open>1\<close> or \<^verbatim>\<open>2\<close>, then a colon, then at least one more character; the speaker is
  \<^verbatim>\<open>speaker1\<close> for the digit \<^verbatim>\<open>1\<close> and \<^verbatim>\<open>speaker2\<close> otherwise, and the utterance is
  what follows the colon, trimmed.
\<close>

definition spec_line_turn :: "string \<Rightarrow> turn option" where
  "spec_line_turn l =
     (let line = strip l
      in if map ascii_lower (take 7 line) = ''speaker'' then
           (case dropWhile is_space (drop 7 line) of
              d # c # rest \<Rightarrow>
                if (d = CHR ''1'' \<or> d = CHR ''2'') \<and> c = CHR '':'' \<and> rest \<noteq> []
                then Some (if d = CHR ''1'' then ''speaker1'' else ''speaker2'', strip rest)
                else None
            | _ \<Rightarrow> None)
         else None)"

text \<open>What one pass through the body of the parser's loop appends: nothing, or one turn.\<close>

definition line_turn :: "string \<Rightarrow> turn option" where
  "line_turn l =
     (let line = strip l
      in if line = [] then None
         else (case speaker_re line of
                 None \<Rightarrow> None
               | Some (speaker_raw, text) \<Rightarrow>
                   Some (if CHR ''1'' \<in> set speaker_raw then ''speaker1'' else ''speaker2'',
                         strip text)))"

text \<open>The non-blank lines of a text, each trimmed.\<close>

definition trimmed_lines :: "string list \<Rightarrow> string list" where
  "trimmed_lines ls = filter (\<lambda>l. l \<noteq> []) (map strip ls)"

section \<open>Parsed documents\<close>

text \<open>
  A parsed document is the tree that BeautifulSoup builds: a node is a text node
  (\<^verbatim>\<open>NavigableString\<close>) or an element (\<^verbatim>\<open>Tag\<close>) with its name, its attribute dictionary
  and its children; the document is the root element, named \<^verbatim>\<open>[document]\<close>. Attribute
  values are modelled as plain strings, and comments and other special nodes are left out.

  The library compares two elements with \<^verbatim>\<open>==\<close> and \<^verbatim>\<open>!=\<close> by what they represent:
  two elements are equal iff they have the same name, the same attributes and, node by
  node, the same children; only \<^verbatim>\<open>is\<close> tests whether they are the same object. The
  extractor uses \<^verbatim>\<open>==\<close> and \<^verbatim>\<open>!=\<close>, which is equality of this datatype: a second
  element with the same name, attributes and contents is equal to the first.
\<close>

datatype node = NavigableString string | Tag string "(string, string) fmap" "node list"

text \<open>\<^verbatim>\<open>.descendants\<close>: every node below the given one, in document order.\<close>

fun descendants :: "node \<Rightarrow> node list" where
  "descendants (NavigableString s) = []"
| "descendants (Tag n a cs) = concat (map (\<lambda>c. c # descendants c) cs)"

fun is_named :: "string list \<Rightarrow> node \<Rightarrow> bool" where
  "is_named names (NavigableString s) = False"
| "is_named names (Tag n a cs) = (n \<in> set names)"

fun attr :: "node \<Rightarrow> string \<Rightarrow> string option" where
  "attr (NavigableString s) k = None"
| "attr (Tag n a cs) k = fmlookup a k"

text \<open>
  \<^verbatim>\<open>.string\<close>: a text node is its own string; an element with exactly one child has the
  string of that child; any other element has none.
\<close>

fun string_of :: "node \<Rightarrow> string option" where
  "string_of (NavigableString s) = Some s"
| "string_of (Tag n a cs) = (case cs of [c] \<Rightarrow> string_of c | _ \<Rightarrow> None)"

text \<open>
  \<^verbatim>\<open>get_text(strip=True)\<close>: the text nodes below the element in document order, each
  trimmed, the empty ones dropped, joined with nothing between them.
\<close>

fun strings :: "node \<Rightarrow> string list" where
  "strings (NavigableString s) = [s]"
| "strings (Tag n a cs) = concat (map strings cs)"

definition get_text_strip :: "node \<Rightarrow> string" where
  "get_text_strip t = concat (filter (\<lambda>s. s \<noteq> []) (map strip (strings t)))"

text \<open>
  \<^verbatim>\<open>find_all(names)\<close>: the elements below the root with one of the names, in document
  order. \<^verbatim>\<open>find(name, {"id": v})\<close> and \<^verbatim>\<open>find(name, string=s)\<close>: the first element with
  the name whose \<^verbatim>\<open>id\<close> attribute is \<open>v\<close>, respectively whose \<^verbatim>\<open>.string\<close> is \<open>s\<close>;
  \<^verbatim>\<open>None\<close> when there is none. The string is compared as it stands, untrimmed, so a
  heading whose text has white space around it is not found under its trimmed title.
\<close>

definition find_all :: "string list \<Rightarrow> node \<Rightarrow> node list" where
  "find_all names soup = filter (is_named names) (descendants soup)"

definition find_by_id :: "string \<Rightarrow> string \<Rightarrow> node \<Rightarrow> node option" where
  "find_by_id name v soup =
     List.find (\<lambda>t. is_named [name] t \<and> attr t ''id'' = Some v) (descendants soup)"

definition find_by_string :: "string \<Rightarrow> string \<Rightarrow> node \<Rightarrow> node option" where
  "find_by_string name s soup =
     List.find (\<lambda>t. is_named [name] t \<and> string_of t = Some s) (descendants soup)"

section \<open>Content extractor: \<^verbatim>\<open>extract_headings\<close> and \<^verbatim>\<open>extract_combined_content\<close>\<close>

type_synonym heading = "string \<times> string"

fun h2_loop :: "node list \<Rightarrow> heading list \<Rightarrow> heading list" where
  "h2_loop [] headings = headings"
| "h2_loop (h2 # h2_tags) headings =
     (if length headings \<ge> 3 then headings
      else (let text = get_text_strip h2
            in if text \<noteq> [] \<and> text \<noteq> ''Contents''
               then h2_loop h2_tags (headings @ [(''H2'', text)])
               else h2_loop h2_tags headings))"

definition extract_headings :: "node \<Rightarrow> heading list" where
  "extract_headings soup =
     (let headings = (case find_by_id ''h1'' ''firstHeading'' soup of
                        Some h1 \<Rightarrow> [(''H1'', get_text_strip h1)]
                      | None \<Rightarrow> []);
          h2_tags = find_all [''h2''] soup
      in h2_loop h2_tags headings)"

text \<open>The node of a heading, as the extractor looks it up for both ends of the window.\<close>

definition heading_node :: "node \<Rightarrow> heading \<Rightarrow> node option" where
  "heading_node soup h =
     (case h of (level, title) \<Rightarrow>
        if level = ''H1'' then find_by_string ''h1'' title soup
        else find_by_string ''h2'' title soup)"

fun collect_loop :: "node \<Rightarrow> node \<Rightarrow> node list \<Rightarrow> bool \<Rightarrow> string list \<Rightarrow> string list" where
  "collect_loop start_node end_node [] started collected = collected"
| "collect_loop start_node end_node (tag # tags) started collected =
     (if tag = start_node then collect_loop start_node end_node tags True collected
      else if started then
        (if is_named [''h1'', ''h2''] tag \<and> tag \<noteq> end_node then collected
         else if is_named [''p''] tag then
           (let text = get_text_strip tag
            in if length text > 50
               then collect_loop start_node end_node tags started (collected @ [text])
               else collect_loop start_node end_node tags started collected)
         else collect_loop start_node end_node tags started collected)
      else collect_loop start_node end_node tags started collected)"

text \<open>\<^verbatim>\<open>sep.join(xs)\<close>.\<close>

fun join :: "string \<Rightarrow> string list \<Rightarrow> string" where
  "join sep [] = []"
| "join sep [x] = x"
| "join sep (x # y # ys) = x @ sep @ join sep (y # ys)"

definition extract_combined_content :: "node \<Rightarrow> heading list \<Rightarrow> string" where
  "extract_combined_content soup headings =
     (if headings = [] then []
      else (case (heading_node soup (hd headings), heading_node soup (last headings)) of
              (Some start_node, Some end_node) \<Rightarrow>
                join [CHR 0x0A]
                  (collect_loop start_node end_node (find_all [''h1'', ''h2'', ''p''] soup) False [])
            | _ \<Rightarrow> []))"

text \<open>
  The paragraphs of the window in the words of the specification: the elements strictly
  after the first heading's node, up to the first \<^verbatim>\<open>h1\<close> or \<^verbatim>\<open>h2\<close> that is not the last
  heading's node; of these the paragraphs whose trimmed text is longer than 50.
\<close>

definition long_paragraphs :: "node list \<Rightarrow> string list" where
  "long_paragraphs tags =
     filter (\<lambda>text. length text > 50) (map get_text_strip (filter (is_named [''p'']) tags))"

definition spec_window :: "node \<Rightarrow> node \<Rightarrow> node list \<Rightarrow> node list" where
  "spec_window start_node end_node tags =
     takeWhile (\<lambda>t. \<not> (is_named [''h1'', ''h2''] t \<and> t \<noteq> end_node))
       (tl (dropWhile (\<lambda>t. t \<noteq> start_node) tags))"

definition spec_content :: "node \<Rightarrow> node \<Rightarrow> node \<Rightarrow> string" where
  "spec_content soup start_node end_node =
     join [CHR 0x0A]
       (long_paragraphs (spec_window start_node end_node (find_all [''h1'', ''h2'', ''p''] soup)))"

text \<open>
  The window the scan really covers: an element equal to the first heading's node is
  stepped over wherever it stands, so it does not end the window.
\<close>

definition scan_window :: "node \<Rightarrow> node \<Rightarrow> node list \<Rightarrow> node list" where
  "scan_window start_node end_node tags =
     takeWhile (\<lambda>t. t = start_node \<or> \<not> (is_named [''h1'', ''h2''] t \<and> t \<noteq> end_node))
       (tl (dropWhile (\<lambda>t. t \<noteq> start_node) tags))"

text \<open>Documents used as concrete inputs.\<close>

definition para_a :: string where
  "para_a = ''The first section has one paragraph that is long enough to be kept.''"

definition para_b :: string where
  "para_b = ''The second section has another paragraph that is long enough too.''"

definition element :: "string \<Rightarrow> string \<Rightarrow> node" where
  "element name text = Tag name fmempty [NavigableString text]"

definition document :: "node list \<Rightarrow> node" where
  "document cs = Tag ''[document]'' fmempty cs"

definition repeated_heading_doc :: node where
  "repeated_heading_doc =
     document [element ''h2'' ''News'', element ''p'' para_a,
               element ''h2'' ''News'', element ''p'' para_b,
               element ''h2'' ''Other'']"

definition titled_doc :: node where
  "titled_doc =
     document [Tag ''h1'' (fmap_of_list [(''id'', ''firstHeading'')])
                 [Tag ''span'' fmempty [NavigableString ''India'']],
               element ''p'' para_a,
               element ''h2'' ''Contents'',
               element ''h2'' '' Etymology '',
               element ''p'' para_b,
               element ''h2'' ''History'',
               element ''h2'' ''Geography'']"

definition untitled_doc :: node where
  "untitled_doc = document [element ''h2'' ''News'', element ''p'' para_a]"

definition plain_doc :: node where
  "plain_doc = document [element ''p'' para_a, element ''h2'' ''Contents'']"

section \<open>Services, credentials and effects\<close>

text \<open>
  What the pipeline reads from its surroundings is an \<open>env\<close>: the two credentials that
  the module reads from the environment when it is loaded (\<^verbatim>\<open>None\<close> when a variable is
  not set), the two remote services, the audio decoder (which gives the frame rate and
  the number of frames of the decoded audio), the number of frames that the library's
  rate conversion makes of a number of frames at one rate when it converts them to
  another rate, and the source of random numbers.
  A service is a function from the request it is sent to its answer, or to the message
  of the exception that the client library raises. What the pipeline does to its surroundings is recorded
  in a \<open>world\<close>: the requests submitted so far, in order, and the number of random draws
  made. Every operation that can raise returns an \<open>error + 'a\<close> next to the new world.
\<close>

datatype error =
    Exception string     \<comment> \<open>\<^verbatim>\<open>raise Exception(msg)\<close> in the pipeline\<close>
  | KeyError string      \<comment> \<open>a dictionary lookup with a missing key\<close>
  | Raised string        \<comment> \<open>an exception raised inside a library call\<close>

record chat_request =
  model :: string
  messages :: "(string \<times> string) list"
  temperature :: rat

record tts_payload =
  payload_text :: string
  model_id :: string
  stability :: rat
  similarity_boost :: rat

record http_request =
  url :: string
  headers :: "(string \<times> string) list"
  json :: tts_payload

record http_response =
  status_code :: nat
  content :: string

datatype net_call = ChatCompletion string chat_request | HttpPost http_request

text \<open>
  An audio track as the audio library holds it: sample frames at a frame rate. The model
  keeps the number of frames and the rate, and, to tell what a track is made of, the
  sequence of pieces whose frames it holds: decoded speech, or silence requested with a
  length in milliseconds. Channels and sample width change neither the number of frames
  nor the length and are left out.

  \<^verbatim>\<open>AudioSegment.silent(duration)\<close> makes \<^verbatim>\<open>int(frame_rate * (duration / 1000.0))\<close>
  frames at the default rate of 11025 frames per second; for the lengths the stitcher
  asks for (0, 200, 250, 300, 350, 400) that is the integer quotient below.
  \<^verbatim>\<open>silent(0)\<close> holds no frames: it is made of no piece.

  \<^verbatim>\<open>len(track)\<close> is \<^verbatim>\<open>round(1000 * (frame_count / frame_rate))\<close>, a length in whole
  milliseconds, rounded half to even; it divides by the frame rate. The model computes it
  on exact numbers, where the library uses double-precision floats.
\<close>

datatype segment = Speech string | Silence nat

record audio =
  pieces :: "segment list"
  frame_rate :: nat
  frame_count :: nat

definition silent :: "nat \<Rightarrow> audio" where
  "silent ms =
     \<lparr>pieces = (if ms = 0 then [] else [Silence ms]),
      frame_rate = 11025,
      frame_count = (11025 * ms) div 1000\<rparr>"

definition round_div :: "nat \<Rightarrow> nat \<Rightarrow> nat" where
  "round_div n r =
     (let q = n div r; m = n mod r
      in if 2 * m < r then q else if r < 2 * m then Suc q
         else if even q then q else Suc q)"

record env =
  OPENAI_API_KEY :: "string option"
  ELEVENLABS_API_KEY :: "string option"
  openai_service :: "chat_request \<Rightarrow> string + string"
  http_service :: "http_request \<Rightarrow> string + http_response"
  mp3_decoder :: "string \<Rightarrow> string + nat \<times> nat"
  ratecv_frames :: "nat \<Rightarrow> nat \<Rightarrow> nat \<Rightarrow> nat"
  entropy :: "nat \<Rightarrow> nat"

record world =
  net_log :: "net_call list"
  rand_draws :: nat

text \<open>Python's \<^verbatim>\<open>not x\<close> for an optional string: true for \<^verbatim>\<open>None\<close> and for the empty string.\<close>

fun falsy :: "string option \<Rightarrow> bool" where
  "falsy None = True"
| "falsy (Some s) = (s = [])"

definition VOICE_MAP :: "string \<rightharpoonup> string" where
  "VOICE_MAP = map_of [(''speaker1'', ''3AMU7jXQuQa3oRvRqUmb''),
                       (''speaker2'', ''OtEfb2LVzIE45wdYe54M'')]"

section \<open>Script generator: \<^verbatim>\<open>generate_script_from_content\<close>\<close>

definition generate_script_from_content ::
  "env \<Rightarrow> world \<Rightarrow> string \<Rightarrow> string option \<Rightarrow> (error + string) \<times> world" where
  "generate_script_from_content e w clean_content prompt_template =
     (if falsy (OPENAI_API_KEY e) then (Inl (Exception ''OPENAI_API_KEY not set''), w)
      else
        let PROMPT = (if \<not> falsy prompt_template
                      then the prompt_template @ [CHR 0x0A, CHR 0x0A] @ ''Content:'' @ [CHR 0x0A]
                           @ clean_content
                      else ''Content:'' @ [CHR 0x0A] @ clean_content);
            request = \<lparr>model = ''gpt-5.2'', messages = [(''user'', PROMPT)], temperature = 6 / 10\<rparr>;
            w' = w\<lparr>net_log := net_log w @ [ChatCompletion (the (OPENAI_API_KEY e)) request]\<rparr>
        in (case openai_service e request of
              Inl msg \<Rightarrow> (Inl (Raised msg), w')
            | Inr response_content \<Rightarrow> (Inr (strip response_content), w')))"

text \<open>
  The prompt in the words of the specification: the prefix followed by the content, or
  the content alone when there is no prefix.
\<close>

definition spec_prompt :: "string option \<Rightarrow> string \<Rightarrow> string" where
  "spec_prompt prefix clean_content =
     (case prefix of None \<Rightarrow> clean_content | Some p \<Rightarrow> p @ clean_content)"

section \<open>Speech synthesizer and audio stitcher\<close>

definition tts_turn_elevenlabs ::
  "env \<Rightarrow> world \<Rightarrow> string \<Rightarrow> string \<Rightarrow> (error + audio) \<times> world" where
  "tts_turn_elevenlabs e w txt speaker_id =
     (if falsy (ELEVENLABS_API_KEY e) then (Inl (Exception ''ELEVENLABS_API_KEY not set''), w)
      else
        (case VOICE_MAP speaker_id of
           None \<Rightarrow> (Inl (KeyError speaker_id), w)
         | Some voice_id \<Rightarrow>
             let request =
                   \<lparr>url = ''https://api.elevenlabs.io/v1/text-to-speech/'' @ voice_id,
                    headers = [(''xi-api-key'', the (ELEVENLABS_API_KEY e)),
                               (''Content-Type'', ''application/json'')],
                    json = \<lparr>payload_text = txt, model_id = ''eleven_v3'',
                            stability = 1 / 2, similarity_boost = 3 / 4\<rparr>\<rparr>;
                 w' = w\<lparr>net_log := net_log w @ [HttpPost request]\<rparr>
             in (case http_service e request of
                   Inl msg \<Rightarrow> (Inl (Raised msg), w')
                 | Inr response \<Rightarrow>
                     if status_code response \<noteq> 200
                     then (Inl (Exception ''ElevenLabs TTS failed''), w')
                     else (case mp3_decoder e (content response) of
                             Inl msg \<Rightarrow> (Inl (Raised msg), w')
                           | Inr (rate, frames) \<Rightarrow>
                               (Inr \<lparr>pieces = [Speech (content response)],
                                     frame_rate = rate, frame_count = frames\<rparr>, w')))))"

text \<open>
  \<^verbatim>\<open>seg1 + seg2\<close> on audio is \<^verbatim>\<open>seg1.append(seg2, crossfade=0)\<close>: both tracks are first
  brought to the larger of their two frame rates, then their frames are joined.
  \<^verbatim>\<open>set_frame_rate\<close> returns the track itself when it has the rate already, and converts the
  frames otherwise, unless there are none.
\<close>

definition set_frame_rate :: "env \<Rightarrow> audio \<Rightarrow> nat \<Rightarrow> audio" where
  "set_frame_rate e a rate =
     (if rate = frame_rate a then a
      else a\<lparr>frame_rate := rate,
             frame_count := (if frame_count a = 0 then 0
                             else ratecv_frames e (frame_count a) (frame_rate a) rate)\<rparr>)"

definition append_audio :: "env \<Rightarrow> audio \<Rightarrow> audio \<Rightarrow> audio" where
  "append_audio e seg1 seg2 =
     (let rate = max (frame_rate seg1) (frame_rate seg2);
          s1 = set_frame_rate e seg1 rate;
          s2 = set_frame_rate e seg2 rate
      in \<lparr>pieces = pieces s1 @ pieces s2,
          frame_rate = rate,
          frame_count = frame_count s1 + frame_count s2\<rparr>)"

definition audio_len :: "audio \<Rightarrow> error + nat" where
  "audio_len a =
     (if frame_rate a = 0 then Inl (Raised ''ZeroDivisionError'')
      else Inr (round_div (1000 * frame_count a) (frame_rate a)))"

text \<open>
  \<^verbatim>\<open>random.choice\<close> on the five pause lengths: the next number of the entropy source
  picks the position.
\<close>

definition pause_choices :: "nat list" where
  "pause_choices = [200, 250, 300, 350, 400]"

definition natural_pause_ms :: "env \<Rightarrow> world \<Rightarrow> nat \<times> world" where
  "natural_pause_ms e w =
     (pause_choices ! (entropy e (rand_draws w) mod length pause_choices),
      w\<lparr>rand_draws := Suc (rand_draws w)\<rparr>)"

text \<open>
  The loop of the stitcher over \<^verbatim>\<open>enumerate(turns)\<close>: \<open>n\<close> is \<^verbatim>\<open>len(turns)\<close>, \<open>i\<close> the
  index of the turn at the head of the list. The comparison \<^verbatim>\<open>i < len(turns) - 1\<close> is
  on Python's integers.
\<close>

fun stitch_loop ::
  "env \<Rightarrow> nat \<Rightarrow> nat \<Rightarrow> turn list \<Rightarrow> world \<Rightarrow> audio \<Rightarrow> (error + audio) \<times> world" where
  "stitch_loop e n i [] w final_audio = (Inr final_audio, w)"
| "stitch_loop e n i ((speaker, txt) # turns) w final_audio =
     (case tts_turn_elevenlabs e w txt speaker of
        (Inl err, w1) \<Rightarrow> (Inl err, w1)
      | (Inr seg, w1) \<Rightarrow>
          let final_audio1 = append_audio e final_audio seg
          in if int i < int n - 1
             then (case natural_pause_ms e w1 of
                     (ms, w2) \<Rightarrow>
                       stitch_loop e n (Suc i) turns w2 (append_audio e final_audio1 (silent ms)))
             else stitch_loop e n (Suc i) turns w1 final_audio1)"

definition stitch_conversation_elevenlabs ::
  "env \<Rightarrow> world \<Rightarrow> turn list \<Rightarrow> (error + audio) \<times> world" where
  "stitch_conversation_elevenlabs e w turns = stitch_loop e (length turns) 0 turns w (silent 0)"

text \<open>
  The shape of a stitched track: the clips in order, one pause between each two
  neighbours, none before the first clip and none after the last.
\<close>

fun interleave :: "segment list \<Rightarrow> nat list \<Rightarrow> segment list" where
  "interleave [] pauses = []"
| "interleave [c] pauses = [c]"
| "interleave (c # c' # cs) [] = c # interleave (c' # cs) []"
| "interleave (c # c' # cs) (p # ps) = c # Silence p # interleave (c' # cs) ps"

fun is_speech :: "segment \<Rightarrow> bool" where
  "is_speech (Speech data) = True"
| "is_speech (Silence d) = False"

text \<open>The answer of the synthesizer for one turn; it does not depend on the world.\<close>

definition synthesized :: "env \<Rightarrow> turn \<Rightarrow> error + audio" where
  "synthesized e t = fst (tts_turn_elevenlabs e \<lparr>net_log = [], rand_draws = 0\<rparr> (snd t) (fst t))"

text \<open>The frames of a pause of \<open>ms\<close> milliseconds once it is part of a track at a given rate.\<close>

definition pause_frames :: "env \<Rightarrow> nat \<Rightarrow> nat \<Rightarrow> nat" where
  "pause_frames e rate ms = frame_count (set_frame_rate e (silent ms) rate)"

text \<open>The pauses drawn when \<open>k\<close> draws are made starting at draw number \<open>d\<close>.\<close>

definition drawn_pauses :: "env \<Rightarrow> nat \<Rightarrow> nat \<Rightarrow> nat list" where
  "drawn_pauses e d k =
     map (\<lambda>j. pause_choices ! (entropy e j mod length pause_choices)) [d ..< d + k]"

text \<open>A concrete environment: both services answer every request, the decoder reports
  audio at 11025 frames per second with 5512 frames for each character of the data, rate
  conversion makes frames in proportion to the rates, and the entropy source counts
  upwards.\<close>

definition demo_env :: env where
  "demo_env =
     \<lparr>OPENAI_API_KEY = Some ''sk-demo'',
      ELEVENLABS_API_KEY = Some ''xi-demo'',
      openai_service = (\<lambda>r. Inr ('' Speaker1: Hello  '')),
      http_service = (\<lambda>r. Inr \<lparr>status_code = 200, content = payload_text (json r)\<rparr>),
      mp3_decoder = (\<lambda>data. Inr (11025, 5512 * length data)),
      ratecv_frames = (\<lambda>frames from_rate to_rate. (frames * to_rate) div from_rate),
      entropy = (\<lambda>j. j + 3)\<rparr>"

definition no_keys_env :: env where
  "no_keys_env = demo_env\<lparr>OPENAI_API_KEY := None, ELEVENLABS_API_KEY := Some []\<rparr>"

definition demo_turns :: "turn list" where
  "demo_turns = [(''speaker1'', ''Hi''), (''speaker2'', ''Hello''), (''speaker1'', ''Bye'')]"

definition demo_track :: audio where
  "demo_track =
     \<lparr>pieces = [Speech ''Hi'', Silence 350, Speech ''Hello'', Silence 400, Speech ''Bye''],
      frame_rate = 11025,
      frame_count = 63388\<rparr>"

definition demo_clips :: "audio list" where
  "demo_clips =
     [\<lparr>pieces = [Speech ''Hi''], frame_rate = 11025, frame_count = 11024\<rparr>,
      \<lparr>pieces = [Speech ''Hello''], frame_rate = 11025, frame_count = 27560\<rparr>,
      \<lparr>pieces = [Speech ''Bye''], frame_rate = 11025, frame_count = 16536\<rparr>]"

definition fresh_world :: world where
  "fresh_world = \<lparr>net_log = [], rand_draws = 0\<rparr>"

section \<open>Properties of the text normalizer\<close>

lemma space_not_lower: "is_space c \<Longrightarrow> \<not> is_lower c"
  by (auto simp: is_space_def is_lower_def Let_def)
lemma space_not_upper: "is_space c \<Longrightarrow> \<not> is_upper c"
  by (auto simp: is_space_def is_upper_def Let_def)
lemma space_not_letter: "is_space c \<Longrightarrow> \<not> is_letter c"
  by (simp add: is_letter_def space_not_lower space_not_upper)
lemma space_not_digit: "is_space c \<Longrightarrow> \<not> is_digit c"
  by (auto simp: is_space_def is_digit_def Let_def)
lemma space_not_punct: "is_space c \<Longrightarrow> \<not> is_punct c"
  by (auto simp: is_space_def is_punct_def Let_def)
lemma space_not_bracket: "is_space c \<Longrightarrow> \<not> is_bracket c"
  by (auto simp: is_space_def is_bracket_def Let_def)
lemma is_space_blank: "is_space (CHR '' '')"
  by (simp add: is_space_def)
lemma lower_not_upper: "is_lower c \<Longrightarrow> \<not> is_upper c"
  by (auto simp: is_lower_def is_upper_def Let_def)
lemma letter_not_digit: "is_letter c \<Longrightarrow> \<not> is_digit c"
  by (auto simp: is_letter_def is_lower_def is_upper_def is_digit_def Let_def)
lemma punct_not_letter: "is_punct c \<Longrightarrow> \<not> is_letter c"
  by (auto simp: is_letter_def is_lower_def is_upper_def is_punct_def Let_def)

lemma pair_free_Cons:
  "pair_free A B (a # cs) = ((cs = [] \<or> \<not> (A a \<and> B (hd cs))) \<and> pair_free A B cs)"
  by (cases cs) auto

lemma sub_pair_Nil_iff: "sub_pair A B cs = [] \<longleftrightarrow> cs = []"
  by (induction A B cs rule: sub_pair.induct) auto

lemma hd_sub_pair: "hd (sub_pair A B cs) = hd cs"
  by (induction A B cs rule: sub_pair.induct) auto

lemma sub_pair_id: "pair_free A B s \<Longrightarrow> sub_pair A B s = s"
  by (induction A B s rule: sub_pair.induct) auto

lemma pair_free_sub_pair_other:
  "pair_free A B s \<Longrightarrow> \<not> A (CHR '' '') \<Longrightarrow> \<not> B (CHR '' '') \<Longrightarrow> pair_free A B (sub_pair A' B' s)"
proof (induction A' B' s rule: sub_pair.induct)
  case (1 A' B' a b cs)
  show ?case
  proof (cases "A' a \<and> B' b")
    case True
    from "1.prems" have pb: "pair_free A B (b # cs)" and nab: "\<not> (A a \<and> B b)" by auto
    from pb have "pair_free A B cs" by (simp add: pair_free_Cons)
    with 1 True have "pair_free A B (sub_pair A' B' cs)" by simp
    with pb have "pair_free A B (b # sub_pair A' B' cs)"
      by (simp add: pair_free_Cons hd_sub_pair sub_pair_Nil_iff)
    with True 1 show ?thesis by (simp add: pair_free_Cons)
  next
    case False
    from "1.prems" have pb: "pair_free A B (b # cs)" and nab: "\<not> (A a \<and> B b)" by auto
    with 1 False have "pair_free A B (sub_pair A' B' (b # cs))" by simp
    moreover from False have "sub_pair A' B' (a # b # cs) = a # sub_pair A' B' (b # cs)"
      by (simp only: sub_pair.simps if_False)
    ultimately show ?thesis
      using nab hd_sub_pair [of A' B' "b # cs"] sub_pair_Nil_iff [of A' B' "b # cs"]
      by (simp add: pair_free_Cons del: sub_pair.simps)
  qed
qed simp_all

lemma pair_free_sub_pair_self:
  "\<forall>c. \<not> (A c \<and> B c) \<Longrightarrow> \<not> A (CHR '' '') \<Longrightarrow> \<not> B (CHR '' '') \<Longrightarrow> pair_free A B (sub_pair A B s)"
proof (induction A B s rule: sub_pair.induct)
  case (1 A B a b cs)
  show ?case
  proof (cases "A a \<and> B b")
    case True
    with 1 have ih: "pair_free A B (sub_pair A B cs)" by simp
    from True "1.prems" have "\<not> A b" by blast
    with ih have "pair_free A B (b # sub_pair A B cs)" by (simp add: pair_free_Cons)
    with True 1 show ?thesis by (simp add: pair_free_Cons)
  next
    case False
    with 1 have "pair_free A B (sub_pair A B (b # cs))" by simp
    moreover from False have "sub_pair A B (a # b # cs) = a # sub_pair A B (b # cs)"
      by (simp only: sub_pair.simps if_False)
    ultimately show ?thesis
      using False hd_sub_pair [of A B "b # cs"] sub_pair_Nil_iff [of A B "b # cs"]
      by (simp add: pair_free_Cons del: sub_pair.simps)
  qed
qed simp_all

lemma pair_free_dropWhile: "pair_free A B s \<Longrightarrow> pair_free A B (dropWhile P s)"
  by (induction s) (auto simp: pair_free_Cons)

lemma pair_free_drop: "pair_free A B s \<Longrightarrow> pair_free A B (drop n s)"
  by (induction s arbitrary: n) (auto simp: pair_free_Cons drop_Cons split: nat.splits)

lemma pair_free_take: "pair_free A B s \<Longrightarrow> pair_free A B (take n s)"
proof (induction s arbitrary: n)
  case (Cons a s)
  show ?case
  proof (cases n)
    case (Suc m)
    from Cons have "pair_free A B (take m s)" by (simp add: pair_free_Cons)
    moreover have "take m s \<noteq> [] \<Longrightarrow> hd (take m s) = hd s" by (cases s; cases m) auto
    ultimately show ?thesis using Cons.prems Suc by (auto simp: pair_free_Cons)
  qed simp
qed simp

lemma rstrip_take: "rstrip s = take (length (dropWhile is_space (rev s))) s"
proof -
  have "rev (dropWhile is_space (rev s)) = rev (drop (length (takeWhile is_space (rev s))) (rev s))"
    by (simp add: dropWhile_eq_drop)
  also have "\<dots> = take (length s - length (takeWhile is_space (rev s))) s"
    by (simp add: rev_drop)
  also have "length s - length (takeWhile is_space (rev s)) = length (dropWhile is_space (rev s))"
    by (simp add: dropWhile_eq_drop)
  finally show ?thesis by (simp add: rstrip_def)
qed

lemma pair_free_strip: "pair_free A B s \<Longrightarrow> pair_free A B (strip s)"
  by (simp add: strip_def lstrip_def rstrip_take pair_free_take pair_free_dropWhile)

lemma collapse_ws_Nil_iff: "collapse_ws s = [] \<longleftrightarrow> s = []"
  by (cases s) auto

lemma hd_collapse_ws: "\<not> is_space (hd s) \<Longrightarrow> hd (collapse_ws s) = hd s"
  by (cases s) auto

lemma pair_free_collapse_ws:
  "pair_free A B s \<Longrightarrow> \<forall>c. is_space c \<longrightarrow> \<not> A c \<and> \<not> B c \<Longrightarrow> pair_free A B (collapse_ws s)"
proof (induction s rule: collapse_ws.induct)
  case (2 c cs)
  from "2.prems" have pcs: "pair_free A B cs" by (simp add: pair_free_Cons)
  show ?case
  proof (cases "is_space c")
    case True
    with 2 pcs have "pair_free A B (collapse_ws (dropWhile is_space cs))"
      by (simp add: pair_free_dropWhile)
    with True "2.prems"(2) show ?thesis by (simp add: pair_free_Cons is_space_blank)
  next
    case False
    with 2 pcs have ih: "pair_free A B (collapse_ws cs)" by simp
    show ?thesis
    proof (cases "cs = [] \<or> is_space (hd cs)")
      case True
      then have "cs = [] \<or> \<not> B (hd (collapse_ws cs))"
        using "2.prems"(2) is_space_blank by (cases cs) auto
      with False ih show ?thesis by (auto simp: pair_free_Cons collapse_ws_Nil_iff)
    next
      case F: False
      with "2.prems"(1) have "\<not> (A c \<and> B (hd cs))" by (simp add: pair_free_Cons)
      with F False ih show ?thesis by (simp add: pair_free_Cons hd_collapse_ws)
    qed
  qed
qed simp

lemma set_tl_subset: "set (tl xs) \<subseteq> set xs"
  by (cases xs) auto

lemma set_remove_citations: "set (remove_citations s) \<subseteq> set s"
proof (induction s rule: remove_citations.induct)
  case (2 c cs)
  show ?case
  proof (cases "c = CHR ''['' \<and> CHR '']'' \<in> set cs")
    case True
    then have "remove_citations (c # cs) = remove_citations (tl (dropWhile (\<lambda>x. x \<noteq> CHR '']'') cs))"
      by (simp only: remove_citations.simps simp_thms if_True)
    moreover from True "2.IH"(1)
    have "set (remove_citations (tl (dropWhile (\<lambda>x. x \<noteq> CHR '']'') cs))) \<subseteq> set (tl (dropWhile (\<lambda>x. x \<noteq> CHR '']'') cs))"
      by blast
    ultimately have "set (remove_citations (c # cs)) \<subseteq> set (tl (dropWhile (\<lambda>x. x \<noteq> CHR '']'') cs))"
      by (simp only:)
    also have "\<dots> \<subseteq> set (dropWhile (\<lambda>x. x \<noteq> CHR '']'') cs)"
      by (rule set_tl_subset)
    also have "\<dots> \<subseteq> set cs" by (rule set_dropWhileD [THEN subsetI])
    finally show ?thesis by (simp add: subset_insertI2 del: remove_citations.simps)
  next
    case False
    then have "remove_citations (c # cs) = c # remove_citations cs"
      by (simp only: remove_citations.simps simp_thms if_False)
    moreover from False "2.IH"(2) have "set (remove_citations cs) \<subseteq> set cs" by blast
    ultimately show ?thesis by (auto simp del: remove_citations.simps)
  qed
qed simp

lemma no_citation_remove_citations: "no_citation (remove_citations s)"
proof (induction s rule: remove_citations.induct)
  case (2 c cs)
  show ?case
  proof (cases "c = CHR ''['' \<and> CHR '']'' \<in> set cs")
    case True
    then have "remove_citations (c # cs) = remove_citations (tl (dropWhile (\<lambda>x. x \<noteq> CHR '']'') cs))"
      by (simp only: remove_citations.simps simp_thms if_True)
    with True "2.IH"(1) show ?thesis by (simp only:)
  next
    case False
    then have "remove_citations (c # cs) = c # remove_citations cs"
      by (simp only: remove_citations.simps simp_thms if_False)
    moreover from False "2.IH"(2) have "no_citation (remove_citations cs)" by blast
    ultimately show ?thesis
      using False set_remove_citations [of cs] by (auto simp del: remove_citations.simps)
  qed
qed simp

lemma remove_citations_id: "no_citation s \<Longrightarrow> remove_citations s = s"
  by (induction s) auto

lemma no_citation_filter: "no_citation s = no_citation (filter is_bracket s)"
  by (induction s) (auto simp: is_bracket_def)

lemma filter_sub_pair: "\<not> P (CHR '' '') \<Longrightarrow> filter P (sub_pair A B s) = filter P s"
  by (induction A B s rule: sub_pair.induct) auto

lemma filter_dropWhile_space:
  "\<forall>c. is_space c \<longrightarrow> \<not> P c \<Longrightarrow> filter P (dropWhile is_space s) = filter P s"
  by (induction s) auto

lemma filter_collapse_ws:
  "\<forall>c. is_space c \<longrightarrow> \<not> P c \<Longrightarrow> filter P (collapse_ws s) = filter P s"
  by (induction s rule: collapse_ws.induct) (auto simp: is_space_blank filter_dropWhile_space)

lemma filter_strip:
  assumes "\<forall>c. is_space c \<longrightarrow> \<not> P c"
  shows "filter P (strip s) = filter P s"
proof -
  have "filter P (strip s) = rev (filter P (dropWhile is_space (rev (lstrip s))))"
    by (simp add: strip_def rstrip_def rev_filter)
  also have "\<dots> = filter P (lstrip s)"
    by (simp add: filter_dropWhile_space [OF assms] rev_filter)
  finally show ?thesis by (simp add: lstrip_def filter_dropWhile_space [OF assms])
qed

lemma list_all_dropWhile: "list_all Q s \<Longrightarrow> list_all Q (dropWhile P s)"
  by (induction s) auto

lemma single_spaced_collapse_ws: "single_spaced (collapse_ws s)"
proof -
  have a: "list_all (\<lambda>c. is_space c \<longrightarrow> c = CHR '' '') (collapse_ws s)"
    by (induction s rule: collapse_ws.induct) auto
  have b: "pair_free is_space is_space (collapse_ws s)"
  proof (induction s rule: collapse_ws.induct)
    case (2 c cs)
    show ?case
    proof (cases "is_space c")
      case True
      define d where "d = dropWhile is_space cs"
      have "d \<noteq> [] \<Longrightarrow> \<not> is_space (hd d)"
        unfolding d_def by (rule hd_dropWhile)
      then have "d = [] \<or> \<not> is_space (hd (collapse_ws d))"
        by (auto simp: hd_collapse_ws)
      moreover from True 2 have "pair_free is_space is_space (collapse_ws d)"
        by (simp add: d_def)
      moreover from True have "collapse_ws (c # cs) = CHR '' '' # collapse_ws d"
        by (simp add: d_def)
      ultimately show ?thesis
        by (auto simp: pair_free_Cons collapse_ws_Nil_iff)
    next
      case False
      with 2 show ?thesis by (simp add: pair_free_Cons)
    qed
  qed simp
  from a b show ?thesis by (simp add: single_spaced_def)
qed

lemma list_all_strip: "list_all Q s \<Longrightarrow> list_all Q (strip s)"
  by (simp add: strip_def lstrip_def rstrip_def list_all_dropWhile)

lemma single_spaced_strip: "single_spaced s \<Longrightarrow> single_spaced (strip s)"
  by (simp add: single_spaced_def pair_free_strip list_all_strip)

lemma collapse_ws_id: "single_spaced s \<Longrightarrow> collapse_ws s = s"
proof (induction s rule: collapse_ws.induct)
  case (2 c cs)
  from "2.prems" have tl: "single_spaced cs" by (simp add: single_spaced_def pair_free_Cons)
  show ?case
  proof (cases "is_space c")
    case True
    with "2.prems" have c: "c = CHR '' ''" and "cs = [] \<or> \<not> is_space (hd cs)"
      by (auto simp: single_spaced_def pair_free_Cons)
    then have "dropWhile is_space cs = cs" by (cases cs) auto
    with True c tl 2 show ?thesis by simp
  next
    case False
    with tl 2 show ?thesis by simp
  qed
qed simp

lemma strip_idem: "strip (strip s) = strip s"
proof -
  define t where "t = dropWhile is_space s"
  define u where "u = rev (dropWhile is_space (rev t))"
  have su: "strip s = u" by (simp add: strip_def lstrip_def rstrip_def t_def u_def)
  have r: "dropWhile is_space (rev u) = rev u" by (simp add: u_def)
  have l: "dropWhile is_space u = u"
  proof (cases "u = []")
    case False
    have ut: "u = take (length (dropWhile is_space (rev t))) t"
      using rstrip_take [of t] by (simp add: rstrip_def u_def)
    with False have "t \<noteq> []" by auto
    then have "\<not> is_space (hd t)" unfolding t_def by (rule hd_dropWhile)
    moreover from False ut have "hd u = hd t" by (cases t) auto
    ultimately show ?thesis using False by (cases u) auto
  qed simp
  show ?thesis unfolding su by (simp add: strip_def lstrip_def rstrip_def l r)
qed

lemma blank_classes:
  "\<not> is_lower (CHR '' '')" "\<not> is_upper (CHR '' '')" "\<not> is_letter (CHR '' '')"
  "\<not> is_digit (CHR '' '')" "\<not> is_punct (CHR '' '')" "\<not> is_bracket (CHR '' '')"
  using is_space_blank
  by (blast dest: space_not_lower space_not_upper space_not_letter space_not_digit
      space_not_punct space_not_bracket)+

lemma pair_free_finish:
  "pair_free A B s \<Longrightarrow> \<forall>c. is_space c \<longrightarrow> \<not> A c \<and> \<not> B c \<Longrightarrow>
   pair_free A B (strip (collapse_ws s))"
  by (simp add: pair_free_strip pair_free_collapse_ws)

text \<open>
  Claim C3. The text normalizer is idempotent: for every input string, normalizing the
  normalized text gives the normalized text again.
\<close>

theorem clean_wikipedia_text_idempotent:
  "clean_wikipedia_text (clean_wikipedia_text x) = clean_wikipedia_text x"
proof -
  define t1 where "t1 = remove_citations x"
  define t2 where "t2 = sub_pair is_lower is_upper t1"
  define t3 where "t3 = sub_pair is_punct is_letter t2"
  define t4 where "t4 = sub_pair is_letter is_digit t3"
  define t5 where "t5 = sub_pair is_digit is_letter t4"
  define y where "y = strip (collapse_ws t5)"
  have y: "clean_wikipedia_text x = y"
    by (simp add: clean_wikipedia_text_def Let_def t1_def t2_def t3_def t4_def t5_def y_def)
  have "filter is_bracket y = filter is_bracket t1"
    by (simp add: y_def t5_def t4_def t3_def t2_def filter_strip filter_collapse_ws
        filter_sub_pair space_not_bracket blank_classes)
  moreover have "no_citation t1" unfolding t1_def by (rule no_citation_remove_citations)
  ultimately have "no_citation y" by (metis no_citation_filter)
  then have r1: "remove_citations y = y" by (rule remove_citations_id)
  have "pair_free is_lower is_upper t2"
    unfolding t2_def by (rule pair_free_sub_pair_self) (auto simp: blank_classes lower_not_upper)
  then have "pair_free is_lower is_upper t5"
    by (simp add: t5_def t4_def t3_def pair_free_sub_pair_other blank_classes)
  then have "pair_free is_lower is_upper y"
    unfolding y_def by (rule pair_free_finish) (simp add: space_not_lower space_not_upper)
  then have r2: "sub_pair is_lower is_upper y = y" by (rule sub_pair_id)
  have "pair_free is_punct is_letter t3"
    unfolding t3_def by (rule pair_free_sub_pair_self) (auto simp: blank_classes punct_not_letter)
  then have "pair_free is_punct is_letter t5"
    by (simp add: t5_def t4_def pair_free_sub_pair_other blank_classes)
  then have "pair_free is_punct is_letter y"
    unfolding y_def by (rule pair_free_finish) (simp add: space_not_punct space_not_letter)
  then have r3: "sub_pair is_punct is_letter y = y" by (rule sub_pair_id)
  have "pair_free is_letter is_digit t4"
    unfolding t4_def by (rule pair_free_sub_pair_self) (auto simp: blank_classes letter_not_digit)
  then have "pair_free is_letter is_digit t5"
    by (simp add: t5_def pair_free_sub_pair_other blank_classes)
  then have "pair_free is_letter is_digit y"
    unfolding y_def by (rule pair_free_finish) (simp add: space_not_digit space_not_letter)
  then have r4: "sub_pair is_letter is_digit y = y" by (rule sub_pair_id)
  have "pair_free is_digit is_letter t5"
    unfolding t5_def by (rule pair_free_sub_pair_self) (auto simp: blank_classes letter_not_digit)
  then have "pair_free is_digit is_letter y"
    unfolding y_def by (rule pair_free_finish) (simp add: space_not_digit space_not_letter)
  then have r5: "sub_pair is_digit is_letter y = y" by (rule sub_pair_id)
  have "single_spaced y"
    unfolding y_def by (rule single_spaced_strip) (rule single_spaced_collapse_ws)
  then have r6: "collapse_ws y = y" by (rule collapse_ws_id)
  have r7: "strip y = y" unfolding y_def by (rule strip_idem)
  have "clean_wikipedia_text y = y"
    by (simp add: clean_wikipedia_text_def Let_def r1 r2 r3 r4 r5 r6 r7)
  then show ?thesis by (simp add: y)
qed

text \<open>
  Claim C4, as amended. The normalizer maps \<^verbatim>\<open>theRepublic\<close> to \<^verbatim>\<open>the Republic\<close>,
  \<^verbatim>\<open>India,is\<close> to \<^verbatim>\<open>India, is\<close>, \<^verbatim>\<open>basin9\<close> to \<^verbatim>\<open>basin 9\<close>,
  \<^verbatim>\<open>1200BCE\<close> to \<^verbatim>\<open>1200 BCE\<close>, and \<^verbatim>\<open>text[12]more\<close> to \<^verbatim>\<open>textmore\<close>:
  the citation marker is replaced by the empty string, and no later rule puts a space
  between two lower-case letters.
\<close>

theorem clean_wikipedia_text_examples:
  "clean_wikipedia_text ''theRepublic'' = ''the Republic'' \<and>
   clean_wikipedia_text ''India,is'' = ''India, is'' \<and>
   clean_wikipedia_text ''basin9'' = ''basin 9'' \<and>
   clean_wikipedia_text ''1200BCE'' = ''1200 BCE'' \<and>
   clean_wikipedia_text ''text[12]more'' = ''textmore''"
  by code_simp

text \<open>
  Claim C4, as stated, fails at its last example: the normalizer does not map
  \<^verbatim>\<open>text[12]more\<close> to \<^verbatim>\<open>text more\<close>.
\<close>

theorem clean_wikipedia_text_citation_counterexample:
  "clean_wikipedia_text ''text[12]more'' \<noteq> ''text more''"
  by code_simp

section \<open>Properties of the transcript parser\<close>

lemma parse_loop_eq: "parse_loop ls acc = acc @ List.map_filter line_turn ls"
proof (induction ls arbitrary: acc)
  case (Cons l ls)
  show ?case
    by (cases "speaker_re (strip l)")
       (auto simp: Cons.IH line_turn_def Let_def List.map_filter_simps)
qed (simp add: List.map_filter_simps)

lemma split_on_not_Nil: "split_on sep s \<noteq> []"
  by (induction s) (auto split: list.splits)

lemma split_on_no_sep: "l \<in> set (split_on sep s) \<Longrightarrow> sep \<notin> set l"
proof (induction s arbitrary: l)
  case (Cons c cs)
  then show ?case
    by (cases "split_on sep cs") (auto simp: split_on_not_Nil split: if_splits)
qed simp

lemma rstrip_Cons:
  "rstrip (c # cs) = (if list_all is_space (c # cs) then [] else c # rstrip cs)"
  by (auto simp: rstrip_def dropWhile_append list_all_iff)

lemma rstrip_Nil: "rstrip [] = []"
  by (simp add: rstrip_def)

lemma lstrip_rstrip_commute: "rstrip (lstrip s) = lstrip (rstrip s)"
proof (induction s)
  case (Cons c cs)
  show ?case
  proof (cases "list_all is_space (c # cs)")
    case True
    then have "lstrip (c # cs) = []" by (simp add: lstrip_def list_all_iff)
    moreover from True have "rstrip (c # cs) = []" by (simp add: rstrip_Cons)
    ultimately show ?thesis by (simp add: rstrip_Nil lstrip_def)
  next
    case False
    show ?thesis
    proof (cases "is_space c")
      case True
      with False Cons show ?thesis by (simp add: rstrip_Cons lstrip_def)
    next
      case F: False
      then show ?thesis by (simp add: rstrip_Cons lstrip_def)
    qed
  qed
qed (simp add: lstrip_def rstrip_def)

lemma strip_rev: "strip (rev l) = rev (strip l)"
proof -
  have "strip (rev l) = rev (lstrip (rstrip l))"
    by (simp add: strip_def lstrip_def rstrip_def)
  then show ?thesis by (simp add: lstrip_rstrip_commute strip_def)
qed

lemma split_on_snoc:
  "split_on sep (s @ [x]) =
     (if x = sep then split_on sep s @ [[]]
      else butlast (split_on sep s) @ [last (split_on sep s) @ [x]])"
proof (induction s)
  case (Cons c cs)
  obtain l ls where sp: "split_on sep cs = l # ls"
    using split_on_not_Nil [of sep cs] by (cases "split_on sep cs") auto
  show ?case
  proof (cases "x = sep")
    case True
    with Cons sp show ?thesis by (auto split: list.splits)
  next
    case False
    with Cons sp show ?thesis
      by (cases ls) (auto simp: butlast_append split: list.splits if_splits)
  qed
qed simp

lemma split_on_rev: "split_on sep (rev s) = rev (map rev (split_on sep s))"
proof (induction s)
  case (Cons c cs)
  obtain l ls where sp: "split_on sep cs = l # ls"
    using split_on_not_Nil [of sep cs] by (cases "split_on sep cs") auto
  with Cons show ?case by (simp add: split_on_snoc)
qed simp

lemma trimmed_lines_rev: "trimmed_lines (rev (map rev ls)) = rev (map rev (trimmed_lines ls))"
  by (induction ls) (auto simp: trimmed_lines_def strip_rev)

lemma trimmed_lines_rev_map: "trimmed_lines (map rev (rev ls)) = map rev (rev (trimmed_lines ls))"
  using trimmed_lines_rev [of ls] by (simp add: rev_map)

lemma strip_Cons_space: "is_space c \<Longrightarrow> strip (c # l) = strip l"
  by (simp add: strip_def lstrip_def)

lemma strip_Nil: "strip [] = []"
  by (simp add: strip_def lstrip_def rstrip_def)

lemma is_space_nl: "is_space (CHR 0x0A)"
  by (simp add: is_space_def)

lemma trimmed_lines_lstrip:
  "trimmed_lines (split_on (CHR 0x0A) (lstrip s)) = trimmed_lines (split_on (CHR 0x0A) s)"
proof (induction s)
  case (Cons c cs)
  obtain l ls where sp: "split_on (CHR 0x0A) cs = l # ls"
    using split_on_not_Nil [of "CHR 0x0A" cs] by (cases "split_on (CHR 0x0A) cs") auto
  show ?case
  proof (cases "is_space c")
    case True
    then have "lstrip (c # cs) = lstrip cs" by (simp add: lstrip_def)
    moreover have "trimmed_lines (split_on (CHR 0x0A) (c # cs)) = trimmed_lines (split_on (CHR 0x0A) cs)"
      using True sp by (auto simp: trimmed_lines_def strip_Cons_space strip_Nil)
    ultimately show ?thesis using Cons by simp
  next
    case False
    then show ?thesis by (simp add: lstrip_def)
  qed
qed (simp add: lstrip_def)

lemma trimmed_lines_rstrip:
  "trimmed_lines (split_on (CHR 0x0A) (rstrip s)) = trimmed_lines (split_on (CHR 0x0A) s)"
proof -
  have "rstrip s = rev (lstrip (rev s))" by (simp add: rstrip_def lstrip_def)
  then have "trimmed_lines (split_on (CHR 0x0A) (rstrip s))
      = rev (map rev (trimmed_lines (split_on (CHR 0x0A) (lstrip (rev s)))))"
    by (simp add: split_on_rev trimmed_lines_rev)
  also have "\<dots> = rev (map rev (trimmed_lines (split_on (CHR 0x0A) (rev s))))"
    by (simp add: trimmed_lines_lstrip)
  also have "\<dots> = trimmed_lines (split_on (CHR 0x0A) s)"
    by (simp add: split_on_rev trimmed_lines_rev_map rev_map o_def)
  finally show ?thesis .
qed

lemma trimmed_lines_strip:
  "trimmed_lines (split_on (CHR 0x0A) (strip s)) = trimmed_lines (split_on (CHR 0x0A) s)"
  by (simp add: strip_def trimmed_lines_rstrip trimmed_lines_lstrip)

lemma match_literal_ci_eq:
  "match_literal_ci p s =
     (if map ascii_lower (take (length p) s) = map ascii_lower p
      then Some (drop (length p) s) else None)"
  by (induction p s rule: match_literal_ci.induct) auto

lemma speaker_lower: "map ascii_lower ''Speaker'' = ''speaker''"
  by code_simp

lemma ascii_lower_one: "ascii_lower (CHR ''1'') = CHR ''1''"
  by (simp add: ascii_lower_def is_upper_def)

lemma dot_plus_id: "s \<noteq> [] \<Longrightarrow> CHR 0x0A \<notin> set s \<Longrightarrow> dot_plus s = Some s"
proof -
  assume a: "s \<noteq> []" "CHR 0x0A \<notin> set s"
  then have "takeWhile (\<lambda>c. c \<noteq> CHR 0x0A) s = s" by (simp add: takeWhile_eq_all_conv) metis
  then have "dot_plus s = (case s of [] \<Rightarrow> None | t # ts \<Rightarrow> Some (t # ts))"
    by (simp only: dot_plus_def)
  with a(1) show ?thesis by (cases s) simp_all
qed

lemma ws_then_text_first: "dot_plus (drop k s) = Some t \<Longrightarrow> ws_then_text k s = Some t"
  by (cases k) auto

lemma ws_then_text_stripped:
  assumes "r \<noteq> []" "\<not> is_space (last r)" "CHR 0x0A \<notin> set r"
  shows "ws_then_text (length (takeWhile is_space r)) r = Some (dropWhile is_space r)"
proof -
  have d: "drop (length (takeWhile is_space r)) r = dropWhile is_space r"
    by (simp add: dropWhile_eq_drop)
  from assms(1,2) have "dropWhile is_space r \<noteq> []"
    by (auto simp: dropWhile_eq_Nil_conv) 
  moreover from assms(3) have "CHR 0x0A \<notin> set (dropWhile is_space r)"
    by (auto dest: set_dropWhileD)
  ultimately have "dot_plus (dropWhile is_space r) = Some (dropWhile is_space r)"
    by (rule dot_plus_id)
  then show ?thesis by (intro ws_then_text_first) (simp add: d)
qed

lemma strip_lstrip: "strip (dropWhile is_space s) = strip s"
  by (simp add: strip_def lstrip_def)

lemma set_strip: "set (strip s) \<subseteq> set s"
proof -
  have "set (strip s) \<subseteq> set (lstrip s)"
    by (auto simp: strip_def rstrip_def dest: set_dropWhileD)
  also have "\<dots> \<subseteq> set s" by (auto simp: lstrip_def dest: set_dropWhileD)
  finally show ?thesis .
qed

lemma strip_last: "strip s \<noteq> [] \<Longrightarrow> \<not> is_space (last (strip s))"
proof -
  assume "strip s \<noteq> []"
  then have n: "dropWhile is_space (rev (lstrip s)) \<noteq> []" by (simp add: strip_def rstrip_def)
  then have "\<not> is_space (hd (dropWhile is_space (rev (lstrip s))))" by (rule hd_dropWhile)
  with n show ?thesis by (simp add: strip_def rstrip_def last_rev)
qed

lemma strip_hd: "strip s \<noteq> [] \<Longrightarrow> \<not> is_space (hd (strip s))"
proof -
  assume n: "strip s \<noteq> []"
  then have "lstrip (rstrip s) \<noteq> []" by (simp add: strip_def lstrip_rstrip_commute)
  then have "\<not> is_space (hd (lstrip (rstrip s)))" unfolding lstrip_def by (rule hd_dropWhile)
  then show ?thesis by (simp add: strip_def lstrip_rstrip_commute)
qed

lemma strip_nonempty: "s \<noteq> [] \<Longrightarrow> \<not> is_space (last s) \<Longrightarrow> strip s \<noteq> []"
proof -
  assume a: "s \<noteq> []" "\<not> is_space (last s)"
  then have "\<not> list_all is_space s" by (auto simp: list_all_iff)
  then have "rstrip s \<noteq> []" by (cases s) (auto simp: rstrip_Cons)
  moreover from a have "last (rstrip s) = last s"
    by (cases "rev s") (auto simp: rstrip_def last_rev)
  ultimately have "last (rstrip s) \<in> set (rstrip s)" "\<not> is_space (last (rstrip s))"
    using a(2) last_in_set [of "rstrip s"] by metis+
  then have "lstrip (rstrip s) \<noteq> []"
    unfolding lstrip_def dropWhile_eq_Nil_conv by blast
  then show ?thesis by (simp add: strip_def lstrip_rstrip_commute)
qed

lemma speaker_prefix_no_one:
  assumes "map ascii_lower (take 7 t) = ''speaker''"
  shows "CHR ''1'' \<notin> set (take 7 t)"
proof
  assume "CHR ''1'' \<in> set (take 7 t)"
  then have "ascii_lower (CHR ''1'') \<in> set (map ascii_lower (take 7 t))" by (simp only: set_map) blast
  then show False by (simp add: assms ascii_lower_one)
qed

lemma one_not_space: "\<not> is_space (CHR ''1'')"
  by (simp add: is_space_def)

lemma take_prefix_part: "t = pre @ c # r4 \<Longrightarrow> r3 = c # r4 \<Longrightarrow> take (length t - length r3) t = pre"
  by simp

lemma match_speaker:
  "match_literal_ci ''Speaker'' t =
     (if map ascii_lower (take 7 t) = ''speaker'' then Some (drop 7 t) else None)"
proof -
  have "length ''Speaker'' = 7" by simp
  then show ?thesis by (simp only: match_literal_ci_eq speaker_lower)
qed

lemma speaker_re_stripped:
  assumes t: "t \<noteq> []" "\<not> is_space (last t)" "CHR 0x0A \<notin> set t"
  shows "(case speaker_re t of None \<Rightarrow> None
          | Some (speaker_raw, text) \<Rightarrow>
              Some (if CHR ''1'' \<in> set speaker_raw then ''speaker1'' else ''speaker2'', strip text))
       = (if map ascii_lower (take 7 t) = ''speaker'' then
           (case dropWhile is_space (drop 7 t) of
              d # c # rest \<Rightarrow>
                if (d = CHR ''1'' \<or> d = CHR ''2'') \<and> c = CHR '':'' \<and> rest \<noteq> []
                then Some (if d = CHR ''1'' then ''speaker1'' else ''speaker2'', strip rest)
                else None
            | _ \<Rightarrow> None)
         else None)"
proof (cases "map ascii_lower (take 7 t) = ''speaker''")
  case False
  then have "match_literal_ci ''Speaker'' t = None"
    by (simp only: match_speaker if_False)
  then have "speaker_re t = None"
    by (simp only: speaker_re_def option.case)
  with False show ?thesis by (simp only: option.case if_False)
next
  case True
  then have m: "match_literal_ci ''Speaker'' t = Some (drop 7 t)"
    by (simp only: match_speaker simp_thms if_True)
  define dw where "dw = dropWhile is_space (drop 7 t)"
  define tw where "tw = takeWhile is_space (drop 7 t)"
  have split_t: "t = take 7 t @ tw @ dw"
    by (simp add: dw_def tw_def)
  have sr: "speaker_re t =
     (case dw of
        [] \<Rightarrow> None
      | d # r3 \<Rightarrow>
          if d = CHR ''1'' \<or> d = CHR ''2'' then
            (case r3 of
               [] \<Rightarrow> None
             | c # r4 \<Rightarrow>
                 if c = CHR '':'' then
                   (case ws_then_text (length (takeWhile is_space r4)) r4 of
                      None \<Rightarrow> None
                    | Some text \<Rightarrow> Some (take (length t - length r3) t, text))
                 else None)
          else None)"
    by (simp only: speaker_re_def m option.case dw_def)
  have rhs: "(if map ascii_lower (take 7 t) = ''speaker'' then
           (case dropWhile is_space (drop 7 t) of
              d # c # rest \<Rightarrow>
                if (d = CHR ''1'' \<or> d = CHR ''2'') \<and> c = CHR '':'' \<and> rest \<noteq> []
                then Some (if d = CHR ''1'' then ''speaker1'' else ''speaker2'', strip rest)
                else None
            | _ \<Rightarrow> None)
         else None)
      = (case dw of
              d # c # rest \<Rightarrow>
                if (d = CHR ''1'' \<or> d = CHR ''2'') \<and> c = CHR '':'' \<and> rest \<noteq> []
                then Some (if d = CHR ''1'' then ''speaker1'' else ''speaker2'', strip rest)
                else None
            | _ \<Rightarrow> None)"
    by (simp only: True dw_def simp_thms if_True)
  have "(case speaker_re t of None \<Rightarrow> None
          | Some (speaker_raw, text) \<Rightarrow>
              Some (if CHR ''1'' \<in> set speaker_raw then ''speaker1'' else ''speaker2'', strip text))
      = (case dw of
              d # c # rest \<Rightarrow>
                if (d = CHR ''1'' \<or> d = CHR ''2'') \<and> c = CHR '':'' \<and> rest \<noteq> []
                then Some (if d = CHR ''1'' then ''speaker1'' else ''speaker2'', strip rest)
                else None
            | _ \<Rightarrow> None)"
  proof (cases dw)
    case Nil
    then show ?thesis by (simp add: sr)
  next
    case (Cons d r3)
    note dr = Cons
    show ?thesis
    proof (cases r3)
      case Nil
      with dr show ?thesis by (simp add: sr)
    next
      case (Cons c r4)
      note r3 = Cons
      show ?thesis
      proof (cases "(d = CHR ''1'' \<or> d = CHR ''2'') \<and> c = CHR '':''")
        case False
        with dr r3 show ?thesis by (auto simp: sr)
      next
        case ok: True
        show ?thesis
        proof (cases "r4 = []")
          case True
          then have "ws_then_text (length (takeWhile is_space r4)) r4 = None"
            by (simp add: dot_plus_def)
          with dr r3 ok True show ?thesis by (simp add: sr)
        next
          case False
          have t_eq: "t = (take 7 t @ tw @ [d]) @ c # r4"
            using split_t dr r3 by simp
          from False have "last ((take 7 t @ tw @ [d]) @ c # r4) = last r4" by simp
          with t_eq have "last r4 = last t" by simp
          with t have l4: "\<not> is_space (last r4)" by simp
          have "set r4 \<subseteq> set ((take 7 t @ tw @ [d]) @ c # r4)" by auto
          with t_eq have "set r4 \<subseteq> set t" by simp
          with t(3) have n4: "CHR 0x0A \<notin> set r4" by blast
          from False l4 n4
          have w: "ws_then_text (length (takeWhile is_space r4)) r4 = Some (dropWhile is_space r4)"
            by (rule ws_then_text_stripped)
          have raw: "take (length t - length r3) t = take 7 t @ tw @ [d]"
            using t_eq r3 by (rule take_prefix_part)
          have "CHR ''1'' \<notin> set tw"
            using one_not_space by (auto simp: tw_def dest: set_takeWhileD)
          with speaker_prefix_no_one [OF True]
          have one: "CHR ''1'' \<in> set (take 7 t @ tw @ [d]) \<longleftrightarrow> d = CHR ''1''"
            by auto
          have "speaker_re t = Some (take 7 t @ tw @ [d], dropWhile is_space r4)"
            using dr r3 ok w raw by (simp add: sr)
          with dr r3 ok False one show ?thesis
            by (simp add: strip_lstrip del: set_append)
        qed
      qed
    qed
  qed
  then show ?thesis by (simp only: rhs)
qed

lemma line_turn_spec: "CHR 0x0A \<notin> set l \<Longrightarrow> line_turn l = spec_line_turn l"
proof (cases "strip l = []")
  case True
  then show ?thesis by (simp add: line_turn_def spec_line_turn_def)
next
  case False
  assume "CHR 0x0A \<notin> set l"
  with set_strip [of l] have "CHR 0x0A \<notin> set (strip l)" by blast
  with False strip_last [OF False] show ?thesis
    using speaker_re_stripped [of "strip l"]
    by (simp add: line_turn_def spec_line_turn_def Let_def)
qed

lemma map_filter_cong_set:
  "(\<And>x. x \<in> set xs \<Longrightarrow> f x = g x) \<Longrightarrow> List.map_filter f xs = List.map_filter g xs"
proof (induction xs)
  case (Cons a xs)
  have "f a = g a" by (rule Cons.prems) simp
  moreover have "List.map_filter f xs = List.map_filter g xs"
    by (rule Cons.IH) (simp add: Cons.prems)
  ultimately show ?case by (simp only: List.map_filter_simps)
qed (simp add: List.map_filter_simps)

lemma parse_conversation_lines:
  "parse_conversation script =
     List.map_filter spec_line_turn (split_on (CHR 0x0A) (strip script))"
  unfolding parse_conversation_def parse_loop_eq
  by (simp add: map_filter_cong_set [of _ line_turn spec_line_turn] line_turn_spec split_on_no_sep)

lemma spec_line_turn_strip: "spec_line_turn (strip l) = spec_line_turn l"
  by (simp add: spec_line_turn_def strip_idem)

lemma spec_line_turn_blank: "strip l = [] \<Longrightarrow> spec_line_turn l = None"
  by (simp add: spec_line_turn_def)

lemma map_filter_trimmed:
  "List.map_filter spec_line_turn ls = List.map_filter spec_line_turn (trimmed_lines ls)"
  by (induction ls)
     (auto simp: List.map_filter_simps trimmed_lines_def spec_line_turn_blank spec_line_turn_strip
       split: option.splits)

lemma parse_conversation_example:
  "parse_conversation ''Speaker1: Hello there\<newline>not a line\<newline>Speaker2: Hi!\<newline>'' =
     [(''speaker1'', ''Hello there''), (''speaker2'', ''Hi!'')]"
  by code_simp

text \<open>
  Claim C2. For every script, the parser returns the turns of the lines that match the
  specification's rule, in the order of the lines; every other line adds nothing. The
  rule is \<^const>\<open>spec_line_turn\<close>, read on the trimmed line (a turn's utterance is never
  empty), and the lines are the pieces of the script between line feeds. In particular
  the example script of the specification gives its two turns.
\<close>

theorem parse_conversation_spec:
  "parse_conversation script = List.map_filter spec_line_turn (split_on (CHR 0x0A) script) \<and>
   parse_conversation ''Speaker1: Hello there\<newline>not a line\<newline>Speaker2: Hi!\<newline>'' =
     [(''speaker1'', ''Hello there''), (''speaker2'', ''Hi!'')]"
proof -
  have "parse_conversation script
      = List.map_filter spec_line_turn (trimmed_lines (split_on (CHR 0x0A) (strip script)))"
    using map_filter_trimmed parse_conversation_lines by simp
  also have "\<dots> = List.map_filter spec_line_turn (trimmed_lines (split_on (CHR 0x0A) script))"
    by (simp only: trimmed_lines_strip)
  finally have "parse_conversation script
      = List.map_filter spec_line_turn (split_on (CHR 0x0A) script)"
    by (simp only: map_filter_trimmed [symmetric])
  with parse_conversation_example show ?thesis by (simp only: simp_thms)
qed

section \<open>Properties of the content extractor\<close>

lemma h2_loop_eq:
  "h2_loop h2_tags headings =
     headings @ map (Pair ''H2'')
       (take (3 - length headings)
          (filter (\<lambda>text. text \<noteq> [] \<and> text \<noteq> ''Contents'') (map get_text_strip h2_tags)))"
proof (induction h2_tags arbitrary: headings)
  case (Cons h2 h2_tags)
  show ?case
  proof (cases "length headings \<ge> 3")
    case True
    then show ?thesis by simp
  next
    case False
    then obtain k where k: "3 - length headings = Suc k" "3 - Suc (length headings) = k"
      by (cases "3 - length headings") auto
    show ?thesis
    proof (cases "get_text_strip h2 \<noteq> [] \<and> get_text_strip h2 \<noteq> ''Contents''")
      case True
      with False k show ?thesis by (simp add: Cons.IH Let_def)
    next
      case F: False
      with False show ?thesis by (auto simp add: Cons.IH Let_def)
    qed
  qed
qed simp

lemma collect_loop_started:
  assumes "\<not> is_named [''p''] start_node"
  shows "collect_loop start_node end_node tags True collected =
     collected @ long_paragraphs
       (takeWhile (\<lambda>t. t = start_node \<or> \<not> (is_named [''h1'', ''h2''] t \<and> t \<noteq> end_node)) tags)"
proof (induction tags arbitrary: collected)
  case (Cons tag tags)
  show ?case
  proof (cases "tag = start_node")
    case True
    with assms show ?thesis by (simp add: Cons.IH long_paragraphs_def)
  next
    case False
    then show ?thesis by (simp add: Cons.IH long_paragraphs_def Let_def)
  qed
qed (simp add: long_paragraphs_def)

lemma collect_loop_unstarted:
  "collect_loop start_node end_node tags False collected =
     (case dropWhile (\<lambda>t. t \<noteq> start_node) tags of
        [] \<Rightarrow> collected
      | t # rest \<Rightarrow> collect_loop start_node end_node rest True collected)"
  by (induction tags) auto

lemma collect_loop_window:
  assumes "\<not> is_named [''p''] start_node"
  shows "collect_loop start_node end_node tags False [] =
     long_paragraphs (scan_window start_node end_node tags)"
proof -
  define dw where "dw = dropWhile (\<lambda>t. t \<noteq> start_node) tags"
  have l: "collect_loop start_node end_node tags False [] =
      (case dw of [] \<Rightarrow> [] | t # rest \<Rightarrow> collect_loop start_node end_node rest True [])"
    by (simp only: collect_loop_unstarted dw_def)
  have r: "scan_window start_node end_node tags =
      takeWhile (\<lambda>t. t = start_node \<or> \<not> (is_named [''h1'', ''h2''] t \<and> t \<noteq> end_node)) (tl dw)"
    by (simp only: scan_window_def dw_def)
  show ?thesis unfolding l r
    by (cases dw) (simp_all add: collect_loop_started [OF assms] long_paragraphs_def)
qed

lemma find_by_string_named: "find_by_string name s soup = Some t \<Longrightarrow> is_named [name] t"
  by (auto simp: find_by_string_def find_Some_iff)

lemma is_named_single: "is_named [n] t \<Longrightarrow> n \<noteq> m \<Longrightarrow> \<not> is_named [m] t"
  by (cases t) auto

lemma heading_node_not_p: "heading_node soup h = Some t \<Longrightarrow> \<not> is_named [''p''] t"
proof -
  assume a: "heading_node soup h = Some t"
  obtain level title where h: "h = (level, title)" by (cases h)
  show ?thesis
  proof (cases "level = ''H1''")
    case True
    with a h have "is_named [''h1''] t" by (auto simp: heading_node_def dest: find_by_string_named)
    then show ?thesis by (rule is_named_single) simp
  next
    case False
    with a h have "is_named [''h2''] t" by (auto simp: heading_node_def dest: find_by_string_named)
    then show ?thesis by (rule is_named_single) simp
  qed
qed

text \<open>
  Claim C1, as amended. For a non-empty heading sequence whose two boundary nodes are
  found, the extracted content is the newline-joined text, in document order, of the
  paragraphs with trimmed text longer than 50 that stand after the first heading's node
  and before the first \<^verbatim>\<open>h1\<close> or \<^verbatim>\<open>h2\<close> that is neither equal to the last heading's
  node nor equal to the first heading's node.
\<close>

theorem extract_combined_content_window:
  assumes "headings \<noteq> []"
    and "heading_node soup (hd headings) = Some start_node"
    and "heading_node soup (last headings) = Some end_node"
  shows "extract_combined_content soup headings =
     join [CHR 0x0A]
       (long_paragraphs (scan_window start_node end_node (find_all [''h1'', ''h2'', ''p''] soup)))"
  using assms collect_loop_window [OF heading_node_not_p [OF assms(2)]]
  by (simp add: extract_combined_content_def)

theorem extract_combined_content_window_witness:
  "extract_headings repeated_heading_doc \<noteq> [] \<and>
   heading_node repeated_heading_doc (hd (extract_headings repeated_heading_doc))
     = Some (element ''h2'' ''News'') \<and>
   heading_node repeated_heading_doc (last (extract_headings repeated_heading_doc))
     = Some (element ''h2'' ''Other'') \<and>
   extract_combined_content repeated_heading_doc (extract_headings repeated_heading_doc) =
     join [CHR 0x0A]
       (long_paragraphs (scan_window (element ''h2'' ''News'') (element ''h2'' ''Other'')
          (find_all [''h1'', ''h2'', ''p''] repeated_heading_doc)))"
proof -
  have a: "extract_headings repeated_heading_doc \<noteq> []" by code_simp
  have b: "heading_node repeated_heading_doc (hd (extract_headings repeated_heading_doc))
     = Some (element ''h2'' ''News'')" by code_simp
  have c: "heading_node repeated_heading_doc (last (extract_headings repeated_heading_doc))
     = Some (element ''h2'' ''Other'')" by code_simp
  from a b c extract_combined_content_window [OF a b c] show ?thesis by blast
qed

text \<open>
  Claim C1, as stated, fails where the first heading's text is repeated: in a document
  with the sections News, News and Other, the scan steps over the second News heading
  and keeps the paragraph behind it, which the stated window ends before.
\<close>

theorem extract_combined_content_counterexample:
  "extract_headings repeated_heading_doc \<noteq> [] \<and>
   heading_node repeated_heading_doc (hd (extract_headings repeated_heading_doc))
     = Some (element ''h2'' ''News'') \<and>
   heading_node repeated_heading_doc (last (extract_headings repeated_heading_doc))
     = Some (element ''h2'' ''Other'') \<and>
   extract_combined_content repeated_heading_doc (extract_headings repeated_heading_doc)
     = para_a @ [CHR 0x0A] @ para_b \<and>
   spec_content repeated_heading_doc (element ''h2'' ''News'') (element ''h2'' ''Other'') = para_a \<and>
   extract_combined_content repeated_heading_doc (extract_headings repeated_heading_doc)
     \<noteq> spec_content repeated_heading_doc (element ''h2'' ''News'') (element ''h2'' ''Other'')"
  by code_simp

text \<open>
  Claim C5, as amended. The extractor returns the empty string, and raises nothing, when
  the heading sequence is empty or when either boundary node is not found; and the
  heading sequence is empty, so the extracted content is too, for a document that has
  no page-title element and in which every subsection heading has an empty text or the
  text \<^verbatim>\<open>Contents\<close>.
\<close>

theorem extract_combined_content_empty:
  "(headings = [] \<or> heading_node soup (hd headings) = None
      \<or> heading_node soup (last headings) = None
    \<longrightarrow> extract_combined_content soup headings = []) \<and>
   (find_by_id ''h1'' ''firstHeading'' soup' = None \<and>
    list_all (\<lambda>text. text = [] \<or> text = ''Contents'')
      (map get_text_strip (find_all [''h2''] soup'))
    \<longrightarrow> extract_headings soup' = [] \<and>
        extract_combined_content soup' (extract_headings soup') = [])"
proof (intro conjI impI)
  assume "headings = [] \<or> heading_node soup (hd headings) = None
      \<or> heading_node soup (last headings) = None"
  then show "extract_combined_content soup headings = []"
    by (auto simp: extract_combined_content_def split: option.splits)
next
  assume a: "find_by_id ''h1'' ''firstHeading'' soup' = None \<and>
    list_all (\<lambda>text. text = [] \<or> text = ''Contents'')
      (map get_text_strip (find_all [''h2''] soup'))"
  then have "filter (\<lambda>text. text \<noteq> [] \<and> text \<noteq> ''Contents'')
      (map get_text_strip (find_all [''h2''] soup')) = []"
    by (auto simp: filter_empty_conv list_all_iff)
  with a show e: "extract_headings soup' = []"
    by (simp add: extract_headings_def h2_loop_eq)
  show "extract_combined_content soup' (extract_headings soup') = []"
    by (simp add: e extract_combined_content_def)
qed

theorem extract_combined_content_empty_witness:
  "heading_node titled_doc (last [(''H1'', ''India''), (''H2'', ''Etymology'')]) = None \<and>
   extract_combined_content titled_doc [(''H1'', ''India''), (''H2'', ''Etymology'')] = [] \<and>
   find_by_id ''h1'' ''firstHeading'' plain_doc = None \<and>
   list_all (\<lambda>text. text = [] \<or> text = ''Contents'')
     (map get_text_strip (find_all [''h2''] plain_doc)) \<and>
   extract_headings plain_doc = [] \<and>
   extract_combined_content plain_doc (extract_headings plain_doc) = []"
proof -
  have a: "heading_node titled_doc (last [(''H1'', ''India''), (''H2'', ''Etymology'')]) = None"
    by code_simp
  have b: "find_by_id ''h1'' ''firstHeading'' plain_doc = None" by code_simp
  have c: "list_all (\<lambda>text. text = [] \<or> text = ''Contents'')
     (map get_text_strip (find_all [''h2''] plain_doc))" by code_simp
  from a b c
    extract_combined_content_empty
      [of "[(''H1'', ''India''), (''H2'', ''Etymology'')]" titled_doc plain_doc]
  show ?thesis by blast
qed

text \<open>
  Claim C5, as stated, fails for a document that has no page-title element but has a
  subsection heading: its paragraphs are extracted.
\<close>

theorem extract_untitled_counterexample:
  "find_by_id ''h1'' ''firstHeading'' untitled_doc = None \<and>
   find_all [''h1''] untitled_doc = [] \<and>
   extract_combined_content untitled_doc (extract_headings untitled_doc) = para_a \<and>
   extract_combined_content untitled_doc (extract_headings untitled_doc) \<noteq> []"
  by code_simp

text \<open>
  Claim C6. For a document whose page-title element is found, the heading sequence is
  the page title followed by the first two subsection headings, in document order, whose
  trimmed text is neither empty nor \<^verbatim>\<open>Contents\<close>; so it has at most 3 entries, and a
  skipped subsection heading does not count toward the cap.
\<close>

theorem extract_headings_title:
  assumes "find_by_id ''h1'' ''firstHeading'' soup = Some h1"
  shows "extract_headings soup =
           (''H1'', get_text_strip h1) #
           map (Pair ''H2'')
             (take 2 (filter (\<lambda>text. text \<noteq> [] \<and> text \<noteq> ''Contents'')
                        (map get_text_strip (find_all [''h2''] soup)))) \<and>
         length (extract_headings soup) \<le> 3 \<and>
         hd (extract_headings soup) = (''H1'', get_text_strip h1)"
proof -
  have "(3::nat) - length [(''H1'', get_text_strip h1)] = 2" by simp
  then have e: "extract_headings soup =
           (''H1'', get_text_strip h1) #
           map (Pair ''H2'')
             (take 2 (filter (\<lambda>text. text \<noteq> [] \<and> text \<noteq> ''Contents'')
                        (map get_text_strip (find_all [''h2''] soup))))"
    using assms by (simp add: extract_headings_def h2_loop_eq)
  show ?thesis by (simp add: e)
qed

theorem extract_headings_title_witness:
  "find_by_id ''h1'' ''firstHeading'' titled_doc
     = Some (Tag ''h1'' (fmap_of_list [(''id'', ''firstHeading'')])
               [Tag ''span'' fmempty [NavigableString ''India'']]) \<and>
   extract_headings titled_doc = [(''H1'', ''India''), (''H2'', ''Etymology''), (''H2'', ''History'')] \<and>
   length (extract_headings titled_doc) \<le> 3"
proof -
  have a: "find_by_id ''h1'' ''firstHeading'' titled_doc
     = Some (Tag ''h1'' (fmap_of_list [(''id'', ''firstHeading'')])
               [Tag ''span'' fmempty [NavigableString ''India'']])" by code_simp
  have b: "extract_headings titled_doc = [(''H1'', ''India''), (''H2'', ''Etymology''), (''H2'', ''History'')]"
    by code_simp
  from a b extract_headings_title [OF a] show ?thesis by simp
qed

section \<open>Properties of the audio stitcher\<close>

lemma tts_turn_facts:
  assumes "tts_turn_elevenlabs e w utt speaker = (r, w1)"
  shows "r = synthesized e (speaker, utt)" and "rand_draws w1 = rand_draws w"
    and "\<And>seg. r = Inr seg \<Longrightarrow> \<exists>data. pieces seg = [Speech data]"
  using assms
  by (auto simp: tts_turn_elevenlabs_def synthesized_def Let_def
      split: if_splits option.splits sum.splits prod.splits)

lemma pieces_set_frame_rate: "pieces (set_frame_rate e a rate) = pieces a"
  by (simp add: set_frame_rate_def)

lemma pieces_append_audio: "pieces (append_audio e a b) = pieces a @ pieces b"
  by (simp add: append_audio_def Let_def pieces_set_frame_rate)

lemma pause_choice_in:
  "pause_choices ! (k mod length pause_choices) \<in> {200, 250, 300, 350, 400}"
proof -
  have "k mod 5 = 0 \<or> k mod 5 = 1 \<or> k mod 5 = 2 \<or> k mod 5 = 3 \<or> k mod 5 = 4"
    by arith
  moreover have "length pause_choices = 5" by (simp add: pause_choices_def)
  ultimately show ?thesis by (auto simp: pause_choices_def)
qed

lemma pieces_silent_pause: "ms \<in> {200, 250, 300, 350, 400} \<Longrightarrow> pieces (silent ms) = [Silence ms]"
  by (auto simp: silent_def)

lemma drawn_pauses_Suc:
  "drawn_pauses e d (Suc k) =
     pause_choices ! (entropy e d mod length pause_choices) # drawn_pauses e (Suc d) k"
proof -
  have "[d ..< d + Suc k] = d # [Suc d ..< Suc d + k]" by (simp add: upt_conv_Cons)
  then show ?thesis by (simp only: drawn_pauses_def list.map)
qed

lemma drawn_pauses_0: "drawn_pauses e d 0 = []"
  by (simp add: drawn_pauses_def)

lemma drawn_pauses_in: "set (drawn_pauses e d k) \<subseteq> {200, 250, 300, 350, 400}"
  using pause_choice_in by (auto simp: drawn_pauses_def)

lemma length_drawn_pauses: "length (drawn_pauses e d k) = k"
  by (simp add: drawn_pauses_def)

lemma stitch_loop_step:
  assumes "stitch_loop e n i (t # rest) w a = (Inr track, w')" and "i + length (t # rest) = n"
  obtains c w1 where "synthesized e t = Inr c" and "rand_draws w1 = rand_draws w"
    and "\<exists>data. pieces c = [Speech data]"
    and "rest = [] \<Longrightarrow> track = append_audio e a c"
    and "rest \<noteq> [] \<Longrightarrow>
           stitch_loop e n (Suc i) rest (w1\<lparr>rand_draws := Suc (rand_draws w)\<rparr>)
             (append_audio e (append_audio e a c)
                (silent (pause_choices ! (entropy e (rand_draws w) mod length pause_choices))))
           = (Inr track, w')"
proof -
  obtain speaker utt where t: "t = (speaker, utt)" by (cases t)
  obtain r w1 where tts: "tts_turn_elevenlabs e w utt speaker = (r, w1)"
    by (cases "tts_turn_elevenlabs e w utt speaker")
  from assms(1) t tts obtain c where r: "r = Inr c" by (cases r) auto
  have syn: "synthesized e t = Inr c" using tts_turn_facts(1) [OF tts] r t by simp
  have draws: "rand_draws w1 = rand_draws w" by (rule tts_turn_facts(2) [OF tts])
  have sp: "\<exists>data. pieces c = [Speech data]" by (rule tts_turn_facts(3) [OF tts r])
  have one: "track = append_audio e a c" if "rest = []"
    using assms t tts r that by simp
  have more: "stitch_loop e n (Suc i) rest (w1\<lparr>rand_draws := Suc (rand_draws w)\<rparr>)
             (append_audio e (append_audio e a c)
                (silent (pause_choices ! (entropy e (rand_draws w) mod length pause_choices))))
           = (Inr track, w')" if "rest \<noteq> []"
  proof -
    from that assms(2) have lt: "int i < int n - 1" by (cases rest) auto
    have np: "natural_pause_ms e w1 =
        (pause_choices ! (entropy e (rand_draws w) mod length pause_choices),
         w1\<lparr>rand_draws := Suc (rand_draws w)\<rparr>)"
      by (simp add: natural_pause_ms_def draws)
    from assms(1) t tts r lt np show ?thesis by simp
  qed
  from syn draws sp one more show ?thesis by (rule that)
qed

lemma stitch_loop_track:
  assumes "stitch_loop e n i turns w a = (Inr track, w')" and "i + length turns = n"
  shows "\<exists>clips segs. map (synthesized e) turns = map Inr clips \<and>
           map pieces clips = map (\<lambda>s. [s]) segs \<and>
           list_all is_speech segs \<and>
           pieces track = pieces a @ interleave segs (drawn_pauses e (rand_draws w) (length turns - 1))"
  using assms
proof (induction turns arbitrary: i w a)
  case Nil
  then show ?case by simp
next
  case (Cons t rest)
  from Cons.prems obtain c w1 where
    syn: "synthesized e t = Inr c" and draws: "rand_draws w1 = rand_draws w"
    and sp: "\<exists>data. pieces c = [Speech data]"
    and one: "rest = [] \<Longrightarrow> track = append_audio e a c"
    and more: "rest \<noteq> [] \<Longrightarrow>
           stitch_loop e n (Suc i) rest (w1\<lparr>rand_draws := Suc (rand_draws w)\<rparr>)
             (append_audio e (append_audio e a c)
                (silent (pause_choices ! (entropy e (rand_draws w) mod length pause_choices))))
           = (Inr track, w')"
    by (rule stitch_loop_step) blast
  from sp obtain data where pc: "pieces c = [Speech data]" by blast
  show ?case
  proof (cases "rest = []")
    case True
    with one pc have "pieces track = pieces a @ [Speech data]" by (simp add: pieces_append_audio)
    with True syn pc show ?thesis
      by (intro exI [of _ "[c]"] exI [of _ "[Speech data]"]) simp
  next
    case False
    define ms where "ms = pause_choices ! (entropy e (rand_draws w) mod length pause_choices)"
    define w2 where "w2 = w1\<lparr>rand_draws := Suc (rand_draws w)\<rparr>"
    define a2 where "a2 = append_audio e (append_audio e a c) (silent ms)"
    have ms_in: "ms \<in> {200, 250, 300, 350, 400}" unfolding ms_def by (rule pause_choice_in)
    have pa2: "pieces a2 = pieces a @ [Speech data, Silence ms]"
      by (simp add: a2_def pieces_append_audio pc pieces_silent_pause [OF ms_in])
    from more [OF False] have loop: "stitch_loop e n (Suc i) rest w2 a2 = (Inr track, w')"
      by (simp only: ms_def w2_def a2_def)
    from Cons.prems(2) have "Suc i + length rest = n" by simp
    from Cons.IH [OF loop this] obtain clips segs where
      c: "map (synthesized e) rest = map Inr clips" "map pieces clips = map (\<lambda>s. [s]) segs"
         "list_all is_speech segs"
         "pieces track = pieces a2 @ interleave segs (drawn_pauses e (rand_draws w2) (length rest - 1))"
      by blast
    from c(1) have "length clips = length rest" by (metis length_map)
    moreover from c(2) have "length clips = length segs" by (metis length_map)
    ultimately obtain s' segs' where segs: "segs = s' # segs'" using False by (cases segs) auto
    define k where "k = length rest - 1"
    have w2d: "rand_draws w2 = Suc (rand_draws w)" by (simp add: w2_def)
    have len: "length (t # rest) - 1 = Suc k" using False by (cases rest) (simp_all add: k_def)
    have "drawn_pauses e (rand_draws w) (Suc k) = ms # drawn_pauses e (rand_draws w2) k"
      by (simp only: drawn_pauses_Suc ms_def w2d)
    then have "interleave (Speech data # segs)
          (drawn_pauses e (rand_draws w) (length (t # rest) - 1))
        = Speech data # Silence ms #
            interleave segs (drawn_pauses e (rand_draws w2) (length rest - 1))"
      by (simp only: len segs interleave.simps k_def)
    with c(4) pa2 have "pieces track = pieces a @ interleave (Speech data # segs)
          (drawn_pauses e (rand_draws w) (length (t # rest) - 1))"
      by simp
    with c(1,2,3) syn pc show ?thesis
      by (intro exI [of _ "c # clips"] exI [of _ "Speech data # segs"]) simp
  qed
qed

lemma stitch_loop_frames:
  assumes "stitch_loop e n i turns w a = (Inr track, w')" and "i + length turns = n"
    and "turns \<noteq> []"
    and "map (synthesized e) turns = map Inr clips"
    and "list_all (\<lambda>c. frame_rate c = rate) clips"
    and "11025 \<le> rate"
    and "frame_rate a = rate \<or> (frame_count a = 0 \<and> frame_rate a \<le> rate)"
  shows "frame_rate track = rate \<and>
         frame_count track =
           frame_count a + sum_list (map frame_count clips)
           + sum_list (map (pause_frames e rate) (drawn_pauses e (rand_draws w) (length turns - 1)))"
  using assms
proof (induction turns arbitrary: i w a clips)
  case Nil
  then show ?case by simp
next
  case (Cons t rest)
  from Cons.prems(1,2) obtain c w1 where
    syn: "synthesized e t = Inr c" and draws: "rand_draws w1 = rand_draws w"
    and one: "rest = [] \<Longrightarrow> track = append_audio e a c"
    and more: "rest \<noteq> [] \<Longrightarrow>
           stitch_loop e n (Suc i) rest (w1\<lparr>rand_draws := Suc (rand_draws w)\<rparr>)
             (append_audio e (append_audio e a c)
                (silent (pause_choices ! (entropy e (rand_draws w) mod length pause_choices))))
           = (Inr track, w')"
    by (rule stitch_loop_step) blast
  from Cons.prems(4) syn obtain cs where clips: "clips = c # cs"
    and cs: "map (synthesized e) rest = map Inr cs"
    by (cases clips) auto
  from Cons.prems(5) clips have rc: "frame_rate c = rate" and rcs: "list_all (\<lambda>c. frame_rate c = rate) cs"
    by simp_all
  define a1 where "a1 = append_audio e a c"
  from Cons.prems(7) rc have a1: "frame_rate a1 = rate" "frame_count a1 = frame_count a + frame_count c"
    by (auto simp: a1_def append_audio_def set_frame_rate_def Let_def max_def)
  show ?case
  proof (cases "rest = []")
    case True
    with cs have "cs = []" by simp
    with one [OF True] a1 True clips show ?thesis by (simp add: a1_def drawn_pauses_0)
  next
    case False
    define ms where "ms = pause_choices ! (entropy e (rand_draws w) mod length pause_choices)"
    define w2 where "w2 = w1\<lparr>rand_draws := Suc (rand_draws w)\<rparr>"
    define a2 where "a2 = append_audio e a1 (silent ms)"
    have "frame_rate (silent ms) = 11025" by (simp add: silent_def)
    with a1 Cons.prems(6)
    have a2: "frame_rate a2 = rate" "frame_count a2 = frame_count a1 + pause_frames e rate ms"
      by (auto simp: a2_def append_audio_def Let_def max_def pause_frames_def set_frame_rate_def)
    from more [OF False] have loop: "stitch_loop e n (Suc i) rest w2 a2 = (Inr track, w')"
      by (simp only: ms_def w2_def a2_def a1_def)
    from Cons.prems(2) have n: "Suc i + length rest = n" by simp
    from a2(1) have inv: "frame_rate a2 = rate \<or> (frame_count a2 = 0 \<and> frame_rate a2 \<le> rate)"
      by simp
    note ih = Cons.IH [OF loop n False cs rcs Cons.prems(6) inv]
    define k where "k = length rest - 1"
    have w2d: "rand_draws w2 = Suc (rand_draws w)" by (simp add: w2_def)
    have len: "length (t # rest) - 1 = Suc k" using False by (cases rest) (simp_all add: k_def)
    have dp: "drawn_pauses e (rand_draws w) (length (t # rest) - 1)
        = ms # drawn_pauses e (rand_draws w2) (length rest - 1)"
      by (simp only: len drawn_pauses_Suc ms_def w2d k_def)
    from ih a2 a1 clips show ?thesis by (simp only: dp) simp
  qed
qed

lemma stitch_loop_returns:
  "list_all (\<lambda>t. \<not> isl (synthesized e t)) turns \<Longrightarrow>
   \<exists>track w'. stitch_loop e n i turns w a = (Inr track, w')"
proof (induction turns arbitrary: i w a)
  case (Cons t rest)
  obtain speaker utt where t: "t = (speaker, utt)" by (cases t)
  obtain r w1 where tts: "tts_turn_elevenlabs e w utt speaker = (r, w1)"
    by (cases "tts_turn_elevenlabs e w utt speaker")
  from Cons.prems t tts_turn_facts(1) [OF tts] have "\<not> isl r" by simp
  then obtain seg where r: "r = Inr seg" by (cases r) auto
  from Cons.prems have rest: "list_all (\<lambda>t. \<not> isl (synthesized e t)) rest" by simp
  show ?case
  proof (cases "int i < int n - 1")
    case True
    obtain ms w2 where np: "natural_pause_ms e w1 = (ms, w2)"
      by (cases "natural_pause_ms e w1")
    from Cons.IH [OF rest, of "Suc i" w2 "append_audio e (append_audio e a seg) (silent ms)"]
      t tts r True np
    show ?thesis by simp
  next
    case False
    from Cons.IH [OF rest, of "Suc i" w1 "append_audio e a seg"] t tts r False
    show ?thesis by simp
  qed
qed simp

lemma interleave_speech:
  "list_all is_speech segs \<Longrightarrow> length pauses = length segs - 1 \<Longrightarrow>
   filter is_speech (interleave segs pauses) = segs \<and>
   filter (\<lambda>s. \<not> is_speech s) (interleave segs pauses) = map Silence pauses"
  by (induction segs pauses rule: interleave.induct) auto

lemma concat_singletons: "map f xs = map (\<lambda>s. [s]) ys \<Longrightarrow> concat (map f xs) = ys"
  by (induction xs arbitrary: ys) auto

lemma silent_0: "pieces (silent 0) = []" "frame_count (silent 0) = 0" "frame_rate (silent 0) = 11025"
  by (simp_all add: silent_def)

lemma pause_frames_native: "pause_frames e 11025 ms = (11025 * ms) div 1000"
  by (simp add: pause_frames_def set_frame_rate_def silent_def)

text \<open>
  Claim C7, as amended. When the stitcher returns a track for \<open>N\<close> turns, the track is made
  of the \<open>N\<close> clips that the synthesizer gives for the turns, in turn order, with one pause
  between each two neighbours: \<open>N\<close> speech segments and \<open>N - 1\<close> pauses (none for \<open>N = 0\<close>),
  each pause requested with a length of 200, 250, 300, 350 or 400 ms. If there is at least
  one turn and every clip has the same frame rate, not below 11025, the track has that
  rate and its number of frames is the sum of the clips' frames and of the pauses' frames;
  a pause of 200, 250, 300, 350 or 400 ms holds \<open>11025 * ms div 1000\<close> frames at the rate
  11025. The stitcher does return a track whenever the synthesizer succeeds on every turn. For no
  turns it returns the track of no pieces and no frames, of length 0, and leaves the
  world as it was: no request is sent.
\<close>

theorem stitch_conversation_track:
  "(stitch_conversation_elevenlabs e w turns = (Inr track, w') \<longrightarrow>
      (\<exists>clips.
         map (synthesized e) turns = map Inr clips \<and>
         pieces track
           = interleave (concat (map pieces clips))
               (drawn_pauses e (rand_draws w) (length turns - 1)) \<and>
         filter is_speech (pieces track) = concat (map pieces clips) \<and>
         length (filter is_speech (pieces track)) = length turns \<and>
         filter (\<lambda>s. \<not> is_speech s) (pieces track)
           = map Silence (drawn_pauses e (rand_draws w) (length turns - 1)) \<and>
         length (drawn_pauses e (rand_draws w) (length turns - 1)) = length turns - 1 \<and>
         set (drawn_pauses e (rand_draws w) (length turns - 1)) \<subseteq> {200, 250, 300, 350, 400} \<and>
         (turns \<noteq> [] \<and> 11025 \<le> rate \<and> list_all (\<lambda>c. frame_rate c = rate) clips \<longrightarrow>
            frame_rate track = rate \<and>
            frame_count track
              = sum_list (map frame_count clips)
                + sum_list (map (pause_frames e rate)
                     (drawn_pauses e (rand_draws w) (length turns - 1)))))) \<and>
   (list_all (\<lambda>t. \<not> isl (synthesized e t)) turns \<longrightarrow>
      (\<exists>track w'. stitch_conversation_elevenlabs e w turns = (Inr track, w'))) \<and>
   stitch_conversation_elevenlabs e w [] = (Inr (silent 0), w) \<and>
   pieces (silent 0) = [] \<and> frame_count (silent 0) = 0 \<and> audio_len (silent 0) = Inr 0 \<and>
   (ms \<in> {200, 250, 300, 350, 400} \<longrightarrow> pause_frames e 11025 ms = (11025 * ms) div 1000)"
proof (intro conjI impI)
  assume a: "stitch_conversation_elevenlabs e w turns = (Inr track, w')"
  define ps where "ps = drawn_pauses e (rand_draws w) (length turns - 1)"
  from a have loop: "stitch_loop e (length turns) 0 turns w (silent 0) = (Inr track, w')"
    by (simp add: stitch_conversation_elevenlabs_def)
  have zero: "0 + length turns = length turns" by simp
  from stitch_loop_track [OF loop zero] obtain clips segs where
    c: "map (synthesized e) turns = map Inr clips" "map pieces clips = map (\<lambda>s. [s]) segs"
       "list_all is_speech segs" "pieces track = interleave segs ps"
    by (auto simp: ps_def silent_0)
  from c(2) have cc: "concat (map pieces clips) = segs" by (rule concat_singletons)
  from c(1) have "length clips = length turns" by (metis length_map)
  moreover from c(2) have "length clips = length segs" by (metis length_map)
  ultimately have len: "length segs = length turns" by simp
  then have "length ps = length segs - 1" by (simp add: ps_def length_drawn_pauses)
  from interleave_speech [OF c(3) this] c(4)
  have f: "filter is_speech (pieces track) = segs"
    "filter (\<lambda>s. \<not> is_speech s) (pieces track) = map Silence ps"
    by simp_all
  have fr: "frame_rate track = rate \<and>
            frame_count track
              = sum_list (map frame_count clips) + sum_list (map (pause_frames e rate) ps)"
    if "turns \<noteq> [] \<and> 11025 \<le> rate \<and> list_all (\<lambda>c. frame_rate c = rate) clips"
  proof -
    from that have "frame_rate (silent 0) = rate \<or>
        (frame_count (silent 0) = 0 \<and> frame_rate (silent 0) \<le> rate)"
      by (simp add: silent_0)
    from stitch_loop_frames [OF loop zero _ c(1) _ _ this] that show ?thesis
      by (simp add: ps_def silent_0)
  qed
  have "map (synthesized e) turns = map Inr clips \<and>
         pieces track = interleave (concat (map pieces clips)) ps \<and>
         filter is_speech (pieces track) = concat (map pieces clips) \<and>
         length (filter is_speech (pieces track)) = length turns \<and>
         filter (\<lambda>s. \<not> is_speech s) (pieces track) = map Silence ps \<and>
         length ps = length turns - 1 \<and>
         set ps \<subseteq> {200, 250, 300, 350, 400} \<and>
         (turns \<noteq> [] \<and> 11025 \<le> rate \<and> list_all (\<lambda>c. frame_rate c = rate) clips \<longrightarrow>
            frame_rate track = rate \<and>
            frame_count track
              = sum_list (map frame_count clips) + sum_list (map (pause_frames e rate) ps))"
    using c(1,4) f len fr drawn_pauses_in [of e "rand_draws w" "length turns - 1"]
    by (simp add: cc ps_def length_drawn_pauses)
  then show "\<exists>clips.
         map (synthesized e) turns = map Inr clips \<and>
         pieces track
           = interleave (concat (map pieces clips))
               (drawn_pauses e (rand_draws w) (length turns - 1)) \<and>
         filter is_speech (pieces track) = concat (map pieces clips) \<and>
         length (filter is_speech (pieces track)) = length turns \<and>
         filter (\<lambda>s. \<not> is_speech s) (pieces track)
           = map Silence (drawn_pauses e (rand_draws w) (length turns - 1)) \<and>
         length (drawn_pauses e (rand_draws w) (length turns - 1)) = length turns - 1 \<and>
         set (drawn_pauses e (rand_draws w) (length turns - 1)) \<subseteq> {200, 250, 300, 350, 400} \<and>
         (turns \<noteq> [] \<and> 11025 \<le> rate \<and> list_all (\<lambda>c. frame_rate c = rate) clips \<longrightarrow>
            frame_rate track = rate \<and>
            frame_count track
              = sum_list (map frame_count clips)
                + sum_list (map (pause_frames e rate)
                     (drawn_pauses e (rand_draws w) (length turns - 1))))"
    unfolding ps_def by (rule exI)
next
  assume "list_all (\<lambda>t. \<not> isl (synthesized e t)) turns"
  then show "\<exists>track w'. stitch_conversation_elevenlabs e w turns = (Inr track, w')"
    unfolding stitch_conversation_elevenlabs_def by (rule stitch_loop_returns)
next
  show "stitch_conversation_elevenlabs e w [] = (Inr (silent 0), w)"
    by (simp add: stitch_conversation_elevenlabs_def)
  show "pieces (silent 0) = []" by (rule silent_0)
  show "frame_count (silent 0) = 0" by (rule silent_0)
  show "audio_len (silent 0) = Inr 0" by (simp add: audio_len_def silent_def round_div_def)
  show "pause_frames e 11025 ms = (11025 * ms) div 1000" by (rule pause_frames_native)
qed

lemma demo_tts:
  "VOICE_MAP speaker = Some voice \<Longrightarrow>
   fst (tts_turn_elevenlabs demo_env w utt speaker)
     = Inr \<lparr>pieces = [Speech utt], frame_rate = 11025, frame_count = 5512 * length utt\<rparr> \<and>
   rand_draws (snd (tts_turn_elevenlabs demo_env w utt speaker)) = rand_draws w"
  by (simp add: tts_turn_elevenlabs_def demo_env_def Let_def)

lemma demo_voices: "VOICE_MAP ''speaker1'' = Some ''3AMU7jXQuQa3oRvRqUmb''"
  "VOICE_MAP ''speaker2'' = Some ''OtEfb2LVzIE45wdYe54M''"
  by (simp_all add: VOICE_MAP_def)

lemma demo_synth: "map (synthesized demo_env) demo_turns = map Inr demo_clips"
  using demo_tts [OF demo_voices(1)] demo_tts [OF demo_voices(2)]
  by (simp add: synthesized_def demo_turns_def demo_clips_def)

lemma demo_synth_ok: "list_all (\<lambda>t. \<not> isl (synthesized demo_env t)) demo_turns"
proof -
  have "list_all (\<lambda>r. \<not> isl r) (map (synthesized demo_env) demo_turns)"
    unfolding demo_synth by (simp add: list_all_iff)
  then show ?thesis by (simp add: list_all_iff)
qed

lemma demo_rates: "list_all (\<lambda>c. frame_rate c = 11025) demo_clips"
  by (simp add: demo_clips_def)

lemma demo_turns_nonempty: "demo_turns \<noteq> []"
  by (simp add: demo_turns_def)

lemma demo_pauses:
  "drawn_pauses demo_env (rand_draws fresh_world) (length demo_turns - 1) = [350, 400]"
proof -
  have "[0 ..< 2] = [0, Suc 0]" by (simp add: upt_conv_Cons)
  moreover have "length pause_choices = 5" by (simp add: pause_choices_def)
  moreover have "pause_choices ! 3 = 350" "pause_choices ! 4 = 400" by (simp_all add: pause_choices_def)
  ultimately show ?thesis
    by (simp add: drawn_pauses_def fresh_world_def demo_turns_def demo_env_def)
qed

lemma demo_lens: "map audio_len demo_clips = [Inr 1000, Inr 2500, Inr 1500]"
  by (simp add: demo_clips_def audio_len_def round_div_def Let_def)

lemma demo_len: "audio_len demo_track = Inr 5749"
  by (simp add: demo_track_def audio_len_def round_div_def Let_def)

lemma demo_stitch: "fst (stitch_conversation_elevenlabs demo_env fresh_world demo_turns) = Inr demo_track"
proof -
  from stitch_loop_returns [OF demo_synth_ok] obtain track w' where
    r: "stitch_loop demo_env (length demo_turns) 0 demo_turns fresh_world (silent 0) = (Inr track, w')"
    by blast
  have zero: "0 + length demo_turns = length demo_turns" by simp
  from stitch_loop_track [OF r zero] obtain clips segs where
    c: "map (synthesized demo_env) demo_turns = map Inr clips"
       "map pieces clips = map (\<lambda>s. [s]) segs"
       "pieces track = interleave segs
          (drawn_pauses demo_env (rand_draws fresh_world) (length demo_turns - 1))"
    by (auto simp: silent_0)
  from c(1) demo_synth have "map Inr clips = (map Inr demo_clips :: (error + audio) list)" by simp
  then have clips: "clips = demo_clips" by (simp add: inj_map_eq_map)
  from c(2) have "concat (map pieces clips) = segs" by (rule concat_singletons)
  then have segs: "segs = [Speech ''Hi'', Speech ''Hello'', Speech ''Bye'']"
    by (simp add: clips demo_clips_def)
  have p: "pieces track = [Speech ''Hi'', Silence 350, Speech ''Hello'', Silence 400, Speech ''Bye'']"
    unfolding c(3) segs demo_pauses by simp
  have inv: "frame_rate (silent 0) = 11025 \<or>
      (frame_count (silent 0) = 0 \<and> frame_rate (silent 0) \<le> 11025)"
    by (simp add: silent_0)
  from stitch_loop_frames [OF r zero demo_turns_nonempty demo_synth demo_rates _ inv, unfolded demo_pauses]
  have "frame_rate track = 11025 \<and>
        frame_count track = frame_count (silent 0) + sum_list (map frame_count demo_clips)
          + sum_list (map (pause_frames demo_env 11025) [350, 400])"
    by simp
  then have f: "frame_rate track = 11025" "frame_count track = 63388"
    by (simp_all add: silent_0 demo_clips_def pause_frames_native)
  from p f have "track = demo_track" by (cases track) (simp add: demo_track_def)
  with r show ?thesis by (simp add: stitch_conversation_elevenlabs_def)
qed

theorem stitch_conversation_track_witness:
  "stitch_conversation_elevenlabs demo_env fresh_world demo_turns
     = (Inr demo_track, snd (stitch_conversation_elevenlabs demo_env fresh_world demo_turns)) \<and>
   list_all (\<lambda>t. \<not> isl (synthesized demo_env t)) demo_turns \<and>
   demo_turns \<noteq> [] \<and> (11025::nat) \<le> 11025 \<and>
   list_all (\<lambda>c. frame_rate c = 11025) demo_clips \<and>
   length (filter is_speech (pieces demo_track)) = length demo_turns \<and>
   frame_rate demo_track = 11025 \<and>
   frame_count demo_track
     = sum_list (map frame_count demo_clips)
       + sum_list (map (pause_frames demo_env 11025)
            (drawn_pauses demo_env (rand_draws fresh_world) (length demo_turns - 1))) \<and>
   (350::nat) \<in> {200, 250, 300, 350, 400} \<and>
   pause_frames demo_env 11025 350 = (11025 * 350) div 1000"
proof -
  have a: "stitch_conversation_elevenlabs demo_env fresh_world demo_turns
     = (Inr demo_track, snd (stitch_conversation_elevenlabs demo_env fresh_world demo_turns))"
    using demo_stitch by (metis prod.collapse)
  note t = stitch_conversation_track [of demo_env fresh_world demo_turns demo_track
      "snd (stitch_conversation_elevenlabs demo_env fresh_world demo_turns)" 11025 350]
  have m: "(350::nat) \<in> {200, 250, 300, 350, 400}" by simp
  with t have pf: "pause_frames demo_env 11025 350 = (11025 * 350) div 1000" by blast
  from t a obtain clips where
    c: "map (synthesized demo_env) demo_turns = map Inr clips"
       "length (filter is_speech (pieces demo_track)) = length demo_turns"
       "demo_turns \<noteq> [] \<and> (11025::nat) \<le> 11025 \<and> list_all (\<lambda>c. frame_rate c = 11025) clips \<longrightarrow>
            frame_rate demo_track = 11025 \<and>
            frame_count demo_track
              = sum_list (map frame_count clips)
                + sum_list (map (pause_frames demo_env 11025)
                     (drawn_pauses demo_env (rand_draws fresh_world) (length demo_turns - 1)))"
    by blast
  from c(1) demo_synth have "map Inr clips = (map Inr demo_clips :: (error + audio) list)" by simp
  then have "clips = demo_clips" by (simp add: inj_map_eq_map)
  with c(3) demo_turns_nonempty demo_rates
  have "frame_rate demo_track = 11025 \<and>
        frame_count demo_track
          = sum_list (map frame_count demo_clips)
            + sum_list (map (pause_frames demo_env 11025)
                 (drawn_pauses demo_env (rand_draws fresh_world) (length demo_turns - 1)))"
    by simp
  with a demo_synth_ok demo_turns_nonempty demo_rates c(2) m pf show ?thesis
    by (simp only: simp_thms order_refl)
qed

text \<open>
  Claim C7, as stated, fails on the length of the track. Three clips of 11024, 27560 and
  16536 frames at 11025 frames per second are 1000, 2500 and 1500 ms long; the two pauses
  drawn are 350 and 400 ms; the stitched track holds 63388 frames and is 5749 ms long,
  not 5750.
\<close>

theorem stitch_duration_counterexample:
  "fst (stitch_conversation_elevenlabs demo_env fresh_world demo_turns) = Inr demo_track \<and>
   map (synthesized demo_env) demo_turns = map Inr demo_clips \<and>
   map audio_len demo_clips = [Inr 1000, Inr 2500, Inr 1500] \<and>
   drawn_pauses demo_env (rand_draws fresh_world) (length demo_turns - 1) = [350, 400] \<and>
   audio_len demo_track = Inr 5749 \<and>
   (5749::nat) \<noteq> (1000 + 2500 + 1500) + (350 + 400)"
proof (intro conjI)
  show "(5749::nat) \<noteq> (1000 + 2500 + 1500) + (350 + 400)" by simp
qed (rule demo_stitch demo_synth demo_lens demo_pauses demo_len)+

section \<open>Properties of the script generator and of the credential checks\<close>

text \<open>
  Claim C8. When the credential is absent (not set, or set to the empty string), script
  generation, respectively speech synthesis, raises its configuration error and leaves
  the world as it was: no request has been built or sent.
\<close>

theorem missing_credential:
  "(falsy (OPENAI_API_KEY e) \<longrightarrow>
      generate_script_from_content e w clean_content prompt_template
        = (Inl (Exception ''OPENAI_API_KEY not set''), w)) \<and>
   (falsy (ELEVENLABS_API_KEY e) \<longrightarrow>
      tts_turn_elevenlabs e w utterance speaker_id
        = (Inl (Exception ''ELEVENLABS_API_KEY not set''), w))"
  by (simp add: generate_script_from_content_def tts_turn_elevenlabs_def)

theorem missing_credential_witness:
  "falsy (OPENAI_API_KEY no_keys_env) \<and>
   generate_script_from_content no_keys_env fresh_world ''abc'' (Some ''Be brief'')
     = (Inl (Exception ''OPENAI_API_KEY not set''), fresh_world) \<and>
   falsy (ELEVENLABS_API_KEY no_keys_env) \<and>
   tts_turn_elevenlabs no_keys_env fresh_world ''Hi'' ''speaker1''
     = (Inl (Exception ''ELEVENLABS_API_KEY not set''), fresh_world)"
proof -
  have a: "falsy (OPENAI_API_KEY no_keys_env)" by (simp add: no_keys_env_def demo_env_def)
  have b: "falsy (ELEVENLABS_API_KEY no_keys_env)" by (simp add: no_keys_env_def demo_env_def)
  from a b missing_credential [of no_keys_env fresh_world "''abc''" "Some ''Be brief''" "''Hi''" "''speaker1''"]
  show ?thesis by blast
qed

text \<open>
  Claim C9, as amended. With the credential present, the script generator submits exactly
  one completion request, with one user message and temperature 0.6. The message is the
  prefix, an empty line, the line \<^verbatim>\<open>Content:\<close> and the content when a non-empty prefix is
  given, and the line \<^verbatim>\<open>Content:\<close> and the content when the prefix is missing or empty.
  The result is the response text, trimmed and otherwise unchanged, or the error of the
  service.
\<close>

theorem generate_script_request:
  assumes "\<not> falsy (OPENAI_API_KEY e)"
  shows "\<exists>request.
           messages request =
             [(''user'',
               (if falsy prompt_template then ''Content:'' @ [CHR 0x0A] @ clean_content
                else the prompt_template @ [CHR 0x0A, CHR 0x0A] @ ''Content:'' @ [CHR 0x0A]
                     @ clean_content))] \<and>
           temperature request = 6 / 10 \<and>
           net_log (snd (generate_script_from_content e w clean_content prompt_template))
             = net_log w @ [ChatCompletion (the (OPENAI_API_KEY e)) request] \<and>
           rand_draws (snd (generate_script_from_content e w clean_content prompt_template))
             = rand_draws w \<and>
           fst (generate_script_from_content e w clean_content prompt_template)
             = (case openai_service e request of
                  Inl msg \<Rightarrow> Inl (Raised msg)
                | Inr response_content \<Rightarrow> Inr (strip response_content))"
  using assms
  by (cases "falsy prompt_template")
     (auto simp: generate_script_from_content_def Let_def split: sum.splits)

theorem generate_script_request_witness:
  "\<not> falsy (OPENAI_API_KEY demo_env) \<and>
   (\<exists>request.
      messages request = [(''user'', ''Be brief'' @ [CHR 0x0A, CHR 0x0A] @ ''Content:'' @ [CHR 0x0A] @ ''abc'')] \<and>
      temperature request = 6 / 10 \<and>
      net_log (snd (generate_script_from_content demo_env fresh_world ''abc'' (Some ''Be brief'')))
        = net_log fresh_world @ [ChatCompletion (the (OPENAI_API_KEY demo_env)) request] \<and>
      fst (generate_script_from_content demo_env fresh_world ''abc'' (Some ''Be brief''))
        = Inr ''Speaker1: Hello'')"
proof -
  have a: "\<not> falsy (OPENAI_API_KEY demo_env)" by (simp add: demo_env_def)
  have b: "\<not> falsy (Some ''Be brief'')" by simp
  have c: "\<And>r. openai_service demo_env r = Inr '' Speaker1: Hello  ''" by (simp add: demo_env_def)
  have d: "strip '' Speaker1: Hello  '' = ''Speaker1: Hello''" by code_simp
  from generate_script_request [OF a, of "Some ''Be brief''" "''abc''" fresh_world]
  obtain request where
    r: "messages request =
             [(''user'',
               (if falsy (Some ''Be brief'') then ''Content:'' @ [CHR 0x0A] @ ''abc''
                else the (Some ''Be brief'') @ [CHR 0x0A, CHR 0x0A] @ ''Content:'' @ [CHR 0x0A]
                     @ ''abc''))]"
       "temperature request = 6 / 10"
       "net_log (snd (generate_script_from_content demo_env fresh_world ''abc'' (Some ''Be brief'')))
             = net_log fresh_world @ [ChatCompletion (the (OPENAI_API_KEY demo_env)) request]"
       "fst (generate_script_from_content demo_env fresh_world ''abc'' (Some ''Be brief''))
             = (case openai_service demo_env request of
                  Inl msg \<Rightarrow> Inl (Raised msg)
                | Inr response_content \<Rightarrow> Inr (strip response_content))"
    by blast
  from r(1) have m: "messages request
      = [(''user'', ''Be brief'' @ [CHR 0x0A, CHR 0x0A] @ ''Content:'' @ [CHR 0x0A] @ ''abc'')]"
    by simp
  from r(4) have f: "fst (generate_script_from_content demo_env fresh_world ''abc'' (Some ''Be brief''))
        = Inr ''Speaker1: Hello''"
    by (simp only: c d sum.case)
  from a m r(2) r(3) f show ?thesis by blast
qed

text \<open>
  Claim C9, as stated, fails on the prompt: with no prefix the submitted message is not
  the content alone, and with a prefix it is not the prefix directly followed by the
  content.
\<close>

theorem generate_script_prompt_counterexample:
  "net_log (snd (generate_script_from_content demo_env fresh_world ''abc'' None))
     = [ChatCompletion ''sk-demo''
          \<lparr>model = ''gpt-5.2'',
           messages = [(''user'', ''Content:'' @ [CHR 0x0A] @ ''abc'')],
           temperature = 6 / 10\<rparr>] \<and>
   ''Content:'' @ [CHR 0x0A] @ ''abc'' \<noteq> spec_prompt None ''abc'' \<and>
   net_log (snd (generate_script_from_content demo_env fresh_world ''abc'' (Some ''Be brief'')))
     = [ChatCompletion ''sk-demo''
          \<lparr>model = ''gpt-5.2'',
           messages = [(''user'', ''Be brief'' @ [CHR 0x0A, CHR 0x0A] @ ''Content:'' @ [CHR 0x0A] @ ''abc'')],
           temperature = 6 / 10\<rparr>] \<and>
   ''Be brief'' @ [CHR 0x0A, CHR 0x0A] @ ''Content:'' @ [CHR 0x0A] @ ''abc''
     \<noteq> spec_prompt (Some ''Be brief'') ''abc''"
  by (simp add: generate_script_from_content_def demo_env_def fresh_world_def spec_prompt_def)

section \<open>Parsed turns and the voice map\<close>

lemma spec_line_turn_Some:
  assumes "spec_line_turn l = Some (speaker, utt)"
  shows "(speaker = ''speaker1'' \<or> speaker = ''speaker2'') \<and> utt \<noteq> [] \<and>
         \<not> is_space (hd utt) \<and> \<not> is_space (last utt)"
proof -
  define t where "t = strip l"
  define dw where "dw = dropWhile is_space (drop 7 t)"
  from assms have s: "(case dw of
              d # c # rest \<Rightarrow>
                if (d = CHR ''1'' \<or> d = CHR ''2'') \<and> c = CHR '':'' \<and> rest \<noteq> []
                then Some (if d = CHR ''1'' then ''speaker1'' else ''speaker2'', strip rest)
                else None
            | _ \<Rightarrow> None) = Some (speaker, utt)"
    by (simp add: spec_line_turn_def t_def dw_def Let_def split: if_splits)
  then obtain d c rest where dw: "dw = d # c # rest"
    by (cases dw; cases "tl dw") auto
  with s have rest: "rest \<noteq> []" and u: "utt = strip rest"
    and sp: "speaker = (if d = CHR ''1'' then ''speaker1'' else ''speaker2'')"
    by (auto split: if_splits)
  have "t = take 7 t @ takeWhile is_space (drop 7 t) @ dw" by (simp add: dw_def)
  with dw have t_eq: "t = (take 7 t @ takeWhile is_space (drop 7 t) @ [d, c]) @ rest" by simp
  with rest have tn: "t \<noteq> []" by auto
  from rest have "last ((take 7 t @ takeWhile is_space (drop 7 t) @ [d, c]) @ rest) = last rest"
    by simp
  with t_eq have "last rest = last t" by simp
  moreover from tn have "\<not> is_space (last t)" unfolding t_def by (rule strip_last)
  ultimately have "\<not> is_space (last rest)" by simp
  with rest have n: "strip rest \<noteq> []" by (rule strip_nonempty)
  from sp n strip_hd [OF n] strip_last [OF n] show ?thesis by (simp add: u)
qed

lemma voice_map_dom: "dom VOICE_MAP = {''speaker1'', ''speaker2''}"
  by (auto simp: VOICE_MAP_def split: if_splits)

lemma tts_no_key_error:
  "VOICE_MAP speaker \<noteq> None \<Longrightarrow> fst (tts_turn_elevenlabs e w utt speaker) \<noteq> Inl (KeyError k)"
  by (auto simp: tts_turn_elevenlabs_def Let_def split: option.splits sum.splits)

text \<open>
  Claim C10. Every turn the parser produces has the speaker id \<^verbatim>\<open>speaker1\<close> or
  \<^verbatim>\<open>speaker2\<close> and a non-empty utterance with no white space at either end; the voice
  map is defined on exactly these two ids; so the synthesizer's voice lookup succeeds on
  every such turn, and the synthesizer never ends in a missing-key error.
\<close>

theorem parsed_turns_have_voices:
  "(\<forall>(speaker, utt) \<in> set (parse_conversation script).
      (speaker = ''speaker1'' \<or> speaker = ''speaker2'') \<and>
      utt \<noteq> [] \<and> \<not> is_space (hd utt) \<and> \<not> is_space (last utt) \<and>
      VOICE_MAP speaker \<noteq> None \<and>
      (\<forall>e w k. fst (tts_turn_elevenlabs e w utt speaker) \<noteq> Inl (KeyError k))) \<and>
   dom VOICE_MAP = {''speaker1'', ''speaker2''}"
proof -
  have "(speaker = ''speaker1'' \<or> speaker = ''speaker2'') \<and>
      utt \<noteq> [] \<and> \<not> is_space (hd utt) \<and> \<not> is_space (last utt) \<and>
      VOICE_MAP speaker \<noteq> None \<and>
      (\<forall>e w k. fst (tts_turn_elevenlabs e w utt speaker) \<noteq> Inl (KeyError k))"
    if "(speaker, utt) \<in> set (parse_conversation script)" for speaker utt
  proof -
    from that obtain l where "spec_line_turn l = Some (speaker, utt)"
      by (auto simp: parse_conversation_lines List.map_filter_def)
    then have a: "(speaker = ''speaker1'' \<or> speaker = ''speaker2'') \<and> utt \<noteq> [] \<and>
         \<not> is_space (hd utt) \<and> \<not> is_space (last utt)"
      by (rule spec_line_turn_Some)
    then have "speaker \<in> dom VOICE_MAP" by (auto simp: voice_map_dom)
    then have v: "VOICE_MAP speaker \<noteq> None" by blast
    from a v tts_no_key_error [OF v] show ?thesis by blast
  qed
  then show ?thesis using voice_map_dom by blast
qed

theorem parsed_turns_have_voices_witness:
  "(''speaker2'', ''Hi!'') \<in> set (parse_conversation ''Speaker1: Hello there\<newline>not a line\<newline>Speaker2: Hi!\<newline>'') \<and>
   ''Hi!'' \<noteq> [] \<and> \<not> is_space (hd ''Hi!'') \<and> \<not> is_space (last ''Hi!'') \<and>
   VOICE_MAP ''speaker2'' \<noteq> None \<and>
   (\<forall>e w k. fst (tts_turn_elevenlabs e w ''Hi!'' ''speaker2'') \<noteq> Inl (KeyError k)) \<and>
   dom VOICE_MAP = {''speaker1'', ''speaker2''}"
proof -
  let ?script = "''Speaker1: Hello there\<newline>not a line\<newline>Speaker2: Hi!\<newline>''"
  have "parse_conversation ?script = [(''speaker1'', ''Hello there''), (''speaker2'', ''Hi!'')]"
    by (rule parse_conversation_example)
  then have a: "(''speaker2'', ''Hi!'') \<in> set (parse_conversation ?script)"
    by (simp only: list.set insert_iff simp_thms)
  note t = parsed_turns_have_voices [of ?script]
  from t have b: "\<forall>(speaker, utt) \<in> set (parse_conversation ?script).
      (speaker = ''speaker1'' \<or> speaker = ''speaker2'') \<and>
      utt \<noteq> [] \<and> \<not> is_space (hd utt) \<and> \<not> is_space (last utt) \<and>
      VOICE_MAP speaker \<noteq> None \<and>
      (\<forall>e w k. fst (tts_turn_elevenlabs e w utt speaker) \<noteq> Inl (KeyError k))"
    by (rule conjunct1)
  from t have c: "dom VOICE_MAP = {''speaker1'', ''speaker2''}" by (rule conjunct2)
  from bspec [OF b a] have "''Hi!'' \<noteq> [] \<and> \<not> is_space (hd ''Hi!'') \<and> \<not> is_space (last ''Hi!'') \<and>
      VOICE_MAP ''speaker2'' \<noteq> None \<and>
      (\<forall>e w k. fst (tts_turn_elevenlabs e w ''Hi!'' ''speaker2'') \<noteq> Inl (KeyError k))"
    by (simp only: prod.case simp_thms)
  with a c show ?thesis by (simp only: simp_thms)
qed

end
